theory Spec2Isabelle
  imports Complex_Main
begin

section \<open>The crash-game round engine of \<open>index.js\<close>\<close>

text \<open>
  The server keeps four process-wide variables (\<open>currentRound\<close>, \<open>isCrashed\<close>,
  \<open>liveScore\<close>, \<open>crashCounter\<close>), two database tables (the backlog
  \<open>luckyjet_round\<close> and the history \<open>luckyjet_round_log\<close>) and a socket.io
  server. The model below passes all of this around as explicit state.

  Numbers. JavaScript numbers are IEEE doubles. The model computes with exact
  rationals instead: a draw of \<open>Math.random()\<close> is a rational in \<open>[0, 1)\<close>,
  the literals \<open>0.3\<close>, \<open>0.01\<close>, ... are the decimal fractions they
  denote, and \<open>+x.toFixed(2)\<close> is rounding to the nearest hundredth with ties
  going up in magnitude. The double-precision error of one addition or multiplication
  (about \<open>10\<^sup>-\<^sup>1\<^sup>5\<close> at these magnitudes) is ignored. Integer-valued variables
  (\<open>crashCounter\<close>, the auto-increment keys) are natural numbers: a double holds
  every integer up to \<open>2\<^sup>5\<^sup>3\<close> exactly, and at one generated round per played
  round no run of the server comes near that many.
\<close>

subsection \<open>\<open>Number.prototype.toFixed(2)\<close> followed by unary plus\<close>

text \<open>
  \<open>x.toFixed(2)\<close> returns the decimal string of the integer \<open>n\<close> for which
  \<open>n / 100 - x\<close> is closest to zero, the larger \<open>n\<close> on a tie; a negative
  \<open>x\<close> is formatted as minus the result for \<open>-x\<close>, and for
  \<open>\<bar>x\<bar> \<ge> 10\<^sup>2\<^sup>1\<close> the plain string of \<open>x\<close> is returned. The unary plus reads
  the string back as a number.
\<close>

definition toFixed2 :: "rat \<Rightarrow> rat" where
  "toFixed2 x =
     (if 10 ^ 21 \<le> \<bar>x\<bar> then x
      else if x < 0 then - (of_int \<lfloor>(- x) * 100 + 1 / 2\<rfloor> / 100)
      else of_int \<lfloor>x * 100 + 1 / 2\<rfloor> / 100)"

subsection \<open>The crash-point generator\<close>

text \<open>
  \<open>Math.random()\<close> is an input of the program: the generator state carries the
  whole sequence of future draws and the number of draws made so far.
\<close>

record generator =
  crashCounter :: nat
  random_src :: "nat \<Rightarrow> rat"
  random_calls :: nat

definition Math_random :: "generator \<Rightarrow> rat \<times> generator" where
  "Math_random g = (random_src g (random_calls g), g\<lparr>random_calls := random_calls g + 1\<rparr>)"

text \<open>Lines 30 to 34 of \<open>generateCrashPoint\<close>: the roll and the four weighted bands.\<close>

definition weightedBand :: "generator \<Rightarrow> rat \<times> generator" where
  "weightedBand g0 =
     (let (r, g) = Math_random g0; roll = r * 100 in
      if roll < 55 then (let (u, g) = Math_random g in (toFixed2 (1 + u), g))
      else if roll < 80 then (let (u, g) = Math_random g in (toFixed2 (u * 8 + 2), g))
      else if roll < 95 then (let (u, g) = Math_random g in (toFixed2 (u * 20 + 10), g))
      else (let (u, g) = Math_random g in (toFixed2 (u * 20 + 30), g)))"

text \<open>
  The conjunction on line 25 short-circuits: the coin is drawn only when the
  incremented counter lies in \<open>[7, 15]\<close>.
\<close>

definition generateCrashPoint :: "generator \<Rightarrow> rat \<times> generator" where
  "generateCrashPoint g0 =
     (let g = g0\<lparr>crashCounter := crashCounter g0 + 1\<rparr> in
      if 7 \<le> crashCounter g \<and> crashCounter g \<le> 15 then
        (let (coin, g) = Math_random g in
         if coin < 3 / 10 then
           (let g = g\<lparr>crashCounter := 0\<rparr>; (u, g) = Math_random g
            in (toFixed2 (u * 30 + 20), g))
         else weightedBand g)
      else weightedBand g)"

text \<open>The guard of line 25 as a predicate on the state before the call.\<close>

definition coinDrawn :: "generator \<Rightarrow> bool" where
  "coinDrawn g = (7 \<le> crashCounter g + 1 \<and> crashCounter g + 1 \<le> 15)"

definition takesHighBranch :: "generator \<Rightarrow> bool" where
  "takesHighBranch g = (coinDrawn g \<and> random_src g (random_calls g) < 3 / 10)"

text \<open>The generator state after \<open>n\<close> successive calls.\<close>

fun afterCalls :: "nat \<Rightarrow> generator \<Rightarrow> generator" where
  "afterCalls 0 g = g"
| "afterCalls (Suc n) g = snd (generateCrashPoint (afterCalls n g))"

text \<open>
  A mocked random source for concrete runs: it replays the given draws and returns
  \<open>0\<close> afterwards.
\<close>

definition mocked :: "rat list \<Rightarrow> nat \<Rightarrow> rat" where
  "mocked xs i = (if i < length xs then xs ! i else 0)"

text \<open>What \<open>Math.random()\<close> promises: every draw lies in \<open>[0, 1)\<close>.\<close>

definition unitDraws :: "(nat \<Rightarrow> rat) \<Rightarrow> bool" where
  "unitDraws f = (\<forall>i. 0 \<le> f i \<and> f i < 1)"

subsection \<open>The two tables\<close>

text \<open>
  Modelled from the spec: the database behind \<open>require('./db')\<close> is not part of
  \<open>index.js\<close>. Section 6 of the specification and \<open>setupTables\<close> give the two
  tables and their columns, and \<open>index.js\<close> sends every statement as SQL text, so
  the model follows those statements. A table is the list of its rows in insertion
  order together with the next \<open>AUTO_INCREMENT\<close> key; \<open>ORDER BY\<close> sorts by the key
  explicitly. The column \<open>createdAt\<close> is never read by the program and is left out,
  and a crash point is stored as the number it is (the column type \<open>FLOAT\<close> would
  round it to single precision). The database also records whether the two tables
  have been created: a statement on a table that does not exist is rejected. The game
  loop starts only after \<open>setupTables\<close> has been awaited, so of all statements only
  the query of the connection handler can run before the tables exist; every other
  statement is taken to succeed.
\<close>

record round_row =
  row_id :: nat
  roundId :: int
  crashPoint :: rat
  isRunning :: bool

record log_row =
  log_id :: nat
  log_roundId :: int
  log_crashPoint :: rat

record store =
  luckyjet_round :: "round_row list"
  round_auto_increment :: nat
  luckyjet_round_log :: "log_row list"
  log_auto_increment :: nat
  tables_created :: bool

text \<open>The tables after \<open>setupTables\<close> on a fresh database.\<close>

definition empty_store :: store where
  "empty_store = \<lparr>luckyjet_round = [], round_auto_increment = 1,
                   luckyjet_round_log = [], log_auto_increment = 1,
                   tables_created = True\<rparr>"

text \<open>A fresh database, in which \<open>setupTables\<close> has not run yet.\<close>

definition fresh_database :: store where
  "fresh_database = empty_store\<lparr>tables_created := False\<rparr>"

text \<open>The two \<open>CREATE TABLE IF NOT EXISTS\<close> statements of \<open>setupTables\<close>: existing
  tables and their rows are left as they are, missing tables are created empty.\<close>

definition create_tables :: "store \<Rightarrow> store" where
  "create_tables st = (if tables_created st then st else empty_store)"

text \<open>\<open>SELECT COUNT(*) AS total FROM luckyjet_round\<close>\<close>

definition count_rounds :: "store \<Rightarrow> nat" where
  "count_rounds st = length (luckyjet_round st)"

text \<open>\<open>INSERT INTO luckyjet_round (roundId, crashPoint) VALUES (?, ?)\<close>; \<open>isRunning\<close>
  takes its default \<open>false\<close>.\<close>

definition insert_round :: "int \<Rightarrow> rat \<Rightarrow> store \<Rightarrow> store" where
  "insert_round rid cp st =
     st\<lparr>luckyjet_round := luckyjet_round st @
            [\<lparr>row_id = round_auto_increment st, roundId = rid, crashPoint = cp,
              isRunning = False\<rparr>],
        round_auto_increment := round_auto_increment st + 1\<rparr>"

text \<open>\<open>SELECT * FROM luckyjet_round ORDER BY id ASC LIMIT 1\<close>\<close>

definition select_earliest :: "store \<Rightarrow> round_row list" where
  "select_earliest st = take 1 (sort_key row_id (luckyjet_round st))"

text \<open>\<open>UPDATE luckyjet_round SET isRunning = true WHERE id = ?\<close>\<close>

definition update_running :: "nat \<Rightarrow> store \<Rightarrow> store" where
  "update_running i st =
     st\<lparr>luckyjet_round :=
          map (\<lambda>r. if row_id r = i then r\<lparr>isRunning := True\<rparr> else r) (luckyjet_round st)\<rparr>"

text \<open>\<open>DELETE FROM luckyjet_round WHERE id = ?\<close>\<close>

definition delete_round :: "nat \<Rightarrow> store \<Rightarrow> store" where
  "delete_round i st =
     st\<lparr>luckyjet_round := filter (\<lambda>r. row_id r \<noteq> i) (luckyjet_round st)\<rparr>"

text \<open>\<open>INSERT INTO luckyjet_round_log (roundId, crashPoint) VALUES (?, ?)\<close>\<close>

definition insert_log :: "int \<Rightarrow> rat \<Rightarrow> store \<Rightarrow> store" where
  "insert_log rid cp st =
     st\<lparr>luckyjet_round_log := luckyjet_round_log st @
            [\<lparr>log_id = log_auto_increment st, log_roundId = rid, log_crashPoint = cp\<rparr>],
        log_auto_increment := log_auto_increment st + 1\<rparr>"

text \<open>\<open>SELECT ... FROM luckyjet_round_log ORDER BY id DESC LIMIT n\<close>\<close>

definition newest_logs :: "nat \<Rightarrow> log_row list \<Rightarrow> log_row list" where
  "newest_logs n tbl = take n (rev (sort_key log_id tbl))"

definition getLast20Rounds :: "store \<Rightarrow> log_row list" where
  "getLast20Rounds st = newest_logs 20 (luckyjet_round_log st)"

text \<open>\<open>maintainLogLimit\<close>: delete every log row whose key is not among the keys of the
  200 newest rows.\<close>

definition maintainLogLimit :: "store \<Rightarrow> store" where
  "maintainLogLimit st =
     st\<lparr>luckyjet_round_log :=
          filter (\<lambda>r. log_id r \<in> set (map log_id (newest_logs 200 (luckyjet_round_log st))))
            (luckyjet_round_log st)\<rparr>"

subsection \<open>The process state\<close>

text \<open>What the server sends to every connected socket with \<open>io.emit\<close>.\<close>

datatype event =
  Emit_roundStart int rat "log_row list"
  | Emit_liveScore rat
  | Emit_crashed rat

text \<open>The \<open>crashed\<close> events among some broadcasts.\<close>

fun is_crashed_event :: "event \<Rightarrow> bool" where
  "is_crashed_event (Emit_crashed cp) = True"
| "is_crashed_event (Emit_roundStart rid cp previousRounds) = False"
| "is_crashed_event (Emit_liveScore s) = False"

definition crashed_events :: "event list \<Rightarrow> event list" where
  "crashed_events es = filter is_crashed_event es"

text \<open>The \<open>roundStart\<close> events among some broadcasts.\<close>

fun is_roundStart_event :: "event \<Rightarrow> bool" where
  "is_roundStart_event (Emit_roundStart rid cp previousRounds) = True"
| "is_roundStart_event (Emit_liveScore s) = False"
| "is_roundStart_event (Emit_crashed cp) = False"

definition roundStart_events :: "event list \<Rightarrow> event list" where
  "roundStart_events es = filter is_roundStart_event es"

text \<open>
  Where \<open>startGameLoop\<close> stands: before the server has started (\<open>Idle\<close>), at the top
  of the loop (line 86), before the \<open>UPDATE\<close> of line 97, waiting for the promise of
  lines 106 to 127 while the interval timer runs, before the \<open>DELETE\<close> of line 129, and
  in the pause of line 137. \<open>Faulted\<close> stands for an uncaught exception.
\<close>

datatype phase =
  Idle | BacklogCheck | RoundStart | LiveProgression | Settle | InterRoundPause | Faulted

text \<open>
  The four variables of lines 17 to 20 (the counter lives in the generator state), the
  tables, the wall clock read by \<open>Date.now()\<close> (an input, like the random source), the
  broadcasts made so far, whether the interval timer of line 107 is set, and the
  position of the game loop.
\<close>

record world =
  db :: store
  currentRound :: "round_row option"
  isCrashed :: bool
  liveScore :: rat
  gen :: generator
  clock :: "nat \<Rightarrow> int"
  clock_reads :: nat
  emitted :: "event list"
  interval_set :: bool
  pc :: phase

text \<open>The state when the module has been loaded: lines 17 to 20.\<close>

definition initial :: "(nat \<Rightarrow> rat) \<Rightarrow> (nat \<Rightarrow> int) \<Rightarrow> store \<Rightarrow> world" where
  "initial rnd clk st =
     \<lparr>db = st, currentRound = None, isCrashed = False, liveScore = 1,
      gen = \<lparr>crashCounter = 0, random_src = rnd, random_calls = 0\<rparr>,
      clock = clk, clock_reads = 0, emitted = [], interval_set = False, pc = Idle\<rparr>"

definition Date_now :: "world \<Rightarrow> int \<times> world" where
  "Date_now w = (clock w (clock_reads w), w\<lparr>clock_reads := clock_reads w + 1\<rparr>)"

text \<open>A wall clock for concrete runs: it starts at \<open>t0\<close> and advances by one per read.\<close>

definition wall_clock :: "int \<Rightarrow> nat \<Rightarrow> int" where
  "wall_clock t0 n = t0 + int n"

subsection \<open>\<open>prefillRounds\<close>\<close>

text \<open>One pass through the body of the loop of lines 60 to 64.\<close>

definition prefill_body :: "nat \<Rightarrow> world \<Rightarrow> world" where
  "prefill_body i w0 =
     (let (now, w) = Date_now w0;
          rid = now + int i * 1000;
          (cp, g) = generateCrashPoint (gen w)
      in w\<lparr>gen := g, db := insert_round rid cp (db w)\<rparr>)"

function prefill_loop :: "nat \<Rightarrow> int \<Rightarrow> world \<Rightarrow> world" where
  "prefill_loop i remaining w =
     (if int i < remaining then prefill_loop (i + 1) remaining (prefill_body i w) else w)"
  by pat_completeness auto
termination
  by (relation "measure (\<lambda>(i, remaining, w). nat (remaining - int i))") auto

definition prefillRounds :: "world \<Rightarrow> world" where
  "prefillRounds w =
     (let total = count_rounds (db w); remaining = 30 - int total
      in prefill_loop 0 remaining w)"

subsection \<open>\<open>startGameLoop\<close>, one transition at a time\<close>

definition setupTables :: "world \<Rightarrow> world" where
  "setupTables w = w\<lparr>db := create_tables (db w)\<rparr>"

text \<open>The callback of \<open>server.listen\<close>, lines 153 to 156: \<open>setupTables\<close>, then
  \<open>prefillRounds\<close>, then the loop is entered.\<close>

definition boot :: "world \<Rightarrow> world" where
  "boot w = (prefillRounds (setupTables w))\<lparr>pc := BacklogCheck\<rparr>"

text \<open>Lines 86 to 95. With no row, \<open>prefillRounds\<close> runs and \<open>continue\<close> returns to
  line 86; otherwise the three variables are set for the new round.\<close>

definition backlogCheck :: "world \<Rightarrow> world" where
  "backlogCheck w =
     (case select_earliest (db w) of
        [] \<Rightarrow> prefillRounds w
      | r # _ \<Rightarrow> w\<lparr>currentRound := Some r, isCrashed := False, liveScore := 1,
                    pc := RoundStart\<rparr>)"

text \<open>Lines 97 to 107: mark the row, read the history, broadcast \<open>roundStart\<close>, set
  the interval timer. Reading a field of \<open>currentRound\<close> while it is \<open>null\<close> throws.\<close>

definition roundStart :: "world \<Rightarrow> world" where
  "roundStart w =
     (case currentRound w of
        None \<Rightarrow> w\<lparr>pc := Faulted\<rparr>
      | Some r \<Rightarrow>
          (let st = update_running (row_id r) (db w);
               previousRounds = getLast20Rounds st
           in w\<lparr>db := st,
                emitted := emitted w @ [Emit_roundStart (roundId r) (crashPoint r) previousRounds],
                interval_set := True, pc := LiveProgression\<rparr>))"

text \<open>Lines 110 to 115: the tiered step.\<close>

definition advance :: "rat \<Rightarrow> rat" where
  "advance s =
     (if s < 3 / 2 then s + 1 / 100
      else if s < 3 then s + 2 / 100
      else if s < 5 then s + 5 / 100
      else if s < 10 then s + 1 / 10
      else if s < 50 then s + 15 / 100
      else s + 2 / 10)"

text \<open>The timer callback, lines 108 to 125. On a crash it clears the timer and
  resolves the promise, which lets the loop go on at line 129.\<close>

definition tick :: "world \<Rightarrow> world" where
  "tick w0 =
     (if isCrashed w0 then w0
      else
        (let s = toFixed2 (advance (liveScore w0));
             w = w0\<lparr>liveScore := s, emitted := emitted w0 @ [Emit_liveScore s]\<rparr>
         in case currentRound w of
              None \<Rightarrow> w\<lparr>pc := Faulted\<rparr>
            | Some r \<Rightarrow>
                if crashPoint r \<le> s
                then w\<lparr>isCrashed := True,
                       emitted := emitted w @ [Emit_crashed (crashPoint r)],
                       interval_set := False, pc := Settle\<rparr>
                else w))"

text \<open>Lines 129 to 135.\<close>

definition settle :: "world \<Rightarrow> world" where
  "settle w0 =
     (case currentRound w0 of
        None \<Rightarrow> w0\<lparr>pc := Faulted\<rparr>
      | Some r \<Rightarrow>
          (let st = delete_round (row_id r) (db w0);
               st = insert_log (roundId r) (crashPoint r) st;
               st = maintainLogLimit st;
               (newRoundId, w) = Date_now w0;
               (newCrashPoint, g) = generateCrashPoint (gen w)
           in w\<lparr>gen := g, db := insert_round newRoundId newCrashPoint st,
                pc := InterRoundPause\<rparr>))"

text \<open>Line 137: after the delay the loop returns to line 86.\<close>

definition pause :: "world \<Rightarrow> world" where
  "pause w = w\<lparr>pc := BacklogCheck\<rparr>"

text \<open>One transition of the server. The timer callback runs only while the timer is
  set.\<close>

definition step :: "world \<Rightarrow> world" where
  "step w =
     (case pc w of
        Idle \<Rightarrow> boot w
      | BacklogCheck \<Rightarrow> backlogCheck w
      | RoundStart \<Rightarrow> roundStart w
      | LiveProgression \<Rightarrow> (if interval_set w then tick w else w)
      | Settle \<Rightarrow> settle w
      | InterRoundPause \<Rightarrow> pause w
      | Faulted \<Rightarrow> w)"

subsection \<open>The connection handler\<close>

record init_data =
  init_roundId :: "int option"
  init_crashPoint :: "rat option"
  init_previousRounds :: "log_row list"
  init_liveScore :: rat

text \<open>Lines 144 to 149: the payload, built from the rows the query returned and from
  the variables as they are when the \<open>await\<close> of line 143 has returned.
  \<open>currentRound?.roundId\<close> is \<open>undefined\<close> when \<open>currentRound\<close> is \<open>null\<close>.\<close>

definition initData :: "log_row list \<Rightarrow> world \<Rightarrow> init_data" where
  "initData previousRounds w =
     \<lparr>init_roundId = map_option roundId (currentRound w),
      init_crashPoint = map_option crashPoint (currentRound w),
      init_previousRounds = previousRounds,
      init_liveScore = liveScore w\<rparr>"

text \<open>The handler of lines 141 to 150. The server accepts connections as soon as
  it listens, which is before \<open>setupTables\<close> has run. The history is read in the
  state \<open>w\<close> in which the query runs; if the log table does not exist there, the
  query is rejected, the handler ends with that rejection and no \<open>initData\<close> is sent.
  Otherwise the payload is built and sent in the state \<open>w'\<close> in which the handler
  resumes; timer callbacks and steps of the game loop may have run in between.\<close>

definition onConnection :: "world \<Rightarrow> world \<Rightarrow> init_data option" where
  "onConnection w w' =
     (if tables_created (db w) then Some (initData (getLast20Rounds (db w)) w') else None)"

subsection \<open>Well-formed tables and the invariants of the game loop\<close>

text \<open>Keys are handed out in increasing order, so each table, read in insertion
  order, is strictly sorted by key, and every key is below the next one to be
  assigned.\<close>

definition wf_store :: "store \<Rightarrow> bool" where
  "wf_store st =
     (sorted_wrt (<) (map row_id (luckyjet_round st))
      \<and> list_all (\<lambda>r. row_id r < round_auto_increment st) (luckyjet_round st)
      \<and> sorted_wrt (<) (map log_id (luckyjet_round_log st))
      \<and> list_all (\<lambda>r. log_id r < log_auto_increment st) (luckyjet_round_log st))"

text \<open>The backlog rows with \<open>isRunning = true\<close>.\<close>

definition running :: "store \<Rightarrow> round_row list" where
  "running st = filter isRunning (luckyjet_round st)"

text \<open>The round in \<open>currentRound\<close> is in the backlog, and it is the only row whose
  flag is set.\<close>

definition playing :: "world \<Rightarrow> bool" where
  "playing w =
     (case currentRound w of
        None \<Rightarrow> False
      | Some r \<Rightarrow> running (db w) = [r\<lparr>isRunning := True\<rparr>])"

text \<open>No row is flagged; \<open>currentRound\<close> is either still \<open>null\<close>, and then nothing has
  been logged or broadcast, or it is the round that crashed last, which has left the
  backlog and is the newest entry of the log.\<close>

definition between_rounds :: "world \<Rightarrow> bool" where
  "between_rounds w =
     (running (db w) = []
      \<and> (case currentRound w of
           None \<Rightarrow> luckyjet_round_log (db w) = [] \<and> emitted w = []
         | Some r \<Rightarrow>
             isCrashed w
             \<and> row_id r \<notin> set (map row_id (luckyjet_round (db w)))
             \<and> luckyjet_round_log (db w) \<noteq> []
             \<and> log_roundId (last (luckyjet_round_log (db w))) = roundId r
             \<and> log_crashPoint (last (luckyjet_round_log (db w))) = crashPoint r))"

text \<open>What holds between any two transitions of a server started on well-formed
  tables, whatever rows they hold: the tables stay well formed, the score is a
  two-decimal number not below \<open>1\<close>, nothing is broadcast before a round has been
  pulled, the tables exist and the backlog holds at least 30 rounds once the server
  has started its loop, and
  each position of the loop has its own account of \<open>currentRound\<close>, the latch and the
  timer. From \<open>RoundStart\<close> to \<open>Settle\<close> the row of the current round is in the
  backlog, with its flag set once the \<open>UPDATE\<close> has run.\<close>

definition loop_invariant :: "world \<Rightarrow> bool" where
  "loop_invariant w =
     (wf_store (db w)
      \<and> (pc w = Idle \<or> tables_created (db w))
      \<and> toFixed2 (liveScore w) = liveScore w \<and> 1 \<le> liveScore w
      \<and> (case currentRound w of None \<Rightarrow> emitted w = [] | Some r \<Rightarrow> True)
      \<and> (case pc w of
            Idle \<Rightarrow> currentRound w = None
          | BacklogCheck \<Rightarrow> 30 \<le> count_rounds (db w)
          | RoundStart \<Rightarrow>
              30 \<le> count_rounds (db w) \<and> liveScore w = 1 \<and> \<not> isCrashed w
              \<and> (case currentRound w of
                    None \<Rightarrow> False
                  | Some r \<Rightarrow> r \<in> set (luckyjet_round (db w)))
          | LiveProgression \<Rightarrow>
              30 \<le> count_rounds (db w) \<and> \<not> isCrashed w \<and> interval_set w
              \<and> (case currentRound w of
                    None \<Rightarrow> False
                  | Some r \<Rightarrow> r\<lparr>isRunning := True\<rparr> \<in> set (luckyjet_round (db w)))
          | Settle \<Rightarrow>
              30 \<le> count_rounds (db w) \<and> isCrashed w \<and> \<not> interval_set w
              \<and> (case currentRound w of
                    None \<Rightarrow> False
                  | Some r \<Rightarrow> r\<lparr>isRunning := True\<rparr> \<in> set (luckyjet_round (db w)))
          | InterRoundPause \<Rightarrow>
              30 \<le> count_rounds (db w) \<and> isCrashed w \<and> currentRound w \<noteq> None
          | Faulted \<Rightarrow> False))"

text \<open>What holds in addition when the tables were empty at the start: the backlog
  holds exactly 30 rounds, the log has at most 200 entries, and the only row ever
  flagged is that of the round being played.\<close>

definition fresh_invariant :: "world \<Rightarrow> bool" where
  "fresh_invariant w =
     (wf_store (db w)
      \<and> length (luckyjet_round_log (db w)) \<le> 200
      \<and> toFixed2 (liveScore w) = liveScore w \<and> 1 \<le> liveScore w
      \<and> (case pc w of
            Idle \<Rightarrow> db w = empty_store \<and> currentRound w = None \<and> emitted w = []
          | BacklogCheck \<Rightarrow> count_rounds (db w) = 30 \<and> between_rounds w
          | RoundStart \<Rightarrow>
              count_rounds (db w) = 30 \<and> running (db w) = [] \<and> liveScore w = 1
              \<and> \<not> isCrashed w
              \<and> (case currentRound w of
                    None \<Rightarrow> False
                  | Some r \<Rightarrow> r \<in> set (luckyjet_round (db w)))
          | LiveProgression \<Rightarrow>
              count_rounds (db w) = 30 \<and> playing w \<and> \<not> isCrashed w \<and> interval_set w
          | Settle \<Rightarrow>
              count_rounds (db w) = 30 \<and> playing w \<and> isCrashed w \<and> \<not> interval_set w
          | InterRoundPause \<Rightarrow>
              count_rounds (db w) = 30 \<and> between_rounds w \<and> currentRound w \<noteq> None
          | Faulted \<Rightarrow> False))"

text \<open>Sequences of the two transitions that change the backlog.\<close>

datatype transition = DoBacklogCheck | DoSettle

fun fire :: "transition \<Rightarrow> world \<Rightarrow> world" where
  "fire DoBacklogCheck w = backlogCheck w"
| "fire DoSettle w = settle w"

fun run :: "transition list \<Rightarrow> world \<Rightarrow> world" where
  "run [] w = w"
| "run (t # ts) w = run ts (fire t w)"

text \<open>The row that the \<open>k\<close>-th pass of the loop in \<open>prefillRounds\<close> inserts when the
  loop starts in state \<open>w\<close> with index \<open>i\<close>.\<close>

definition prefilled_row :: "nat \<Rightarrow> world \<Rightarrow> nat \<Rightarrow> round_row" where
  "prefilled_row i w k =
     \<lparr>row_id = round_auto_increment (db w) + k,
      roundId = clock w (clock_reads w + k) + int (i + k) * 1000,
      crashPoint = fst (generateCrashPoint (afterCalls k (gen w))),
      isRunning = False\<rparr>"

text \<open>The round \<open>r\<close> is being played: the loop waits for the promise of line 106, the
  timer is set and the latch is open.\<close>

definition in_progress :: "round_row \<Rightarrow> world \<Rightarrow> bool" where
  "in_progress r w =
     (pc w = LiveProgression \<and> interval_set w \<and> \<not> isCrashed w \<and> currentRound w = Some r)"

section \<open>Properties\<close>

subsection \<open>Rounding to two decimals\<close>

lemma floor_rat_numeral: "\<lfloor>numeral a / numeral b :: rat\<rfloor> = numeral a div numeral b"
  using floor_divide_of_int_eq [of "numeral a" "numeral b", where ?'a = rat] by simp

lemma half_up_bounds:
  fixes y :: rat
  shows "y - 1 / 2 < of_int \<lfloor>y + 1 / 2\<rfloor>" and "of_int \<lfloor>y + 1 / 2\<rfloor> \<le> y + 1 / 2"
proof -
  have "y + 1 / 2 < of_int \<lfloor>y + 1 / 2\<rfloor> + 1"
    using floor_correct [of "y + 1 / 2"] by simp
  then show "y - 1 / 2 < of_int \<lfloor>y + 1 / 2\<rfloor>" by simp
  show "of_int \<lfloor>y + 1 / 2\<rfloor> \<le> y + 1 / 2" by (rule of_int_floor_le)
qed

lemma half_up_near:
  fixes y :: rat
  shows "\<bar>of_int \<lfloor>y * 100 + 1 / 2\<rfloor> / 100 - y\<bar> \<le> 1 / 200"
proof -
  define r :: rat where "r = of_int \<lfloor>y * 100 + 1 / 2\<rfloor>"
  have "y * 100 - 1 / 2 < r" "r \<le> y * 100 + 1 / 2"
    unfolding r_def by (rule half_up_bounds)+
  then have "\<bar>r / 100 - y\<bar> \<le> 1 / 200" by linarith
  then show ?thesis by (simp only: r_def)
qed

text \<open>The rounded value is within half a hundredth of the argument.\<close>

lemma toFixed2_near: "\<bar>toFixed2 x - x\<bar> \<le> 1 / 200"
proof -
  have "\<bar>- (of_int \<lfloor>(- x) * 100 + 1 / 2\<rfloor> / 100) - x\<bar> \<le> 1 / 200"
    using half_up_near [of "- x"] by linarith
  then show ?thesis
    using half_up_near [of x] by (simp only: toFixed2_def split: if_split) simp
qed

text \<open>Hundredths are fixed points, and every result is a hundredth below \<open>10\<^sup>2\<^sup>1\<close>.\<close>

lemma toFixed2_grid: "toFixed2 (of_int k / 100) = of_int k / 100"
proof -
  have f: "\<lfloor>of_int j + (1 / 2 :: rat)\<rfloor> = j" for j :: int
    by (simp add: floor_unique)
  show ?thesis using f [of k] f [of "- k"]
    by (simp add: toFixed2_def)
qed

lemma toFixed2_idem: "toFixed2 (toFixed2 x) = toFixed2 x"
proof (cases "10 ^ 21 \<le> \<bar>x\<bar>")
  case True
  then show ?thesis by (simp add: toFixed2_def)
next
  case False
  define k where
    "k = (if x < 0 then - \<lfloor>(- x) * 100 + 1 / 2\<rfloor> else \<lfloor>x * 100 + 1 / 2\<rfloor>)"
  have tk: "toFixed2 x = of_int k / 100"
    using False by (simp add: toFixed2_def k_def)
  show ?thesis unfolding tk by (rule toFixed2_grid)
qed

text \<open>Below \<open>10\<^sup>2\<^sup>1\<close> in magnitude every result is a whole number of hundredths.\<close>

lemma toFixed2_hundredths:
  assumes "\<bar>x\<bar> < 10 ^ 21"
  shows "\<exists>k::int. toFixed2 x = of_int k / 100"
proof (cases "x < 0")
  case True
  then have "toFixed2 x = of_int (- \<lfloor>(- x) * 100 + 1 / 2\<rfloor>) / 100"
    using assms by (simp add: toFixed2_def)
  then show ?thesis by blast
next
  case False
  then have "toFixed2 x = of_int \<lfloor>x * 100 + 1 / 2\<rfloor> / 100"
    using assms by (simp add: toFixed2_def)
  then show ?thesis by blast
qed

text \<open>An argument between two non-negative hundredths rounds to a value between them.\<close>

lemma toFixed2_between:
  assumes "of_int m / 100 \<le> x" and "x \<le> of_int n / 100" and "0 \<le> m" and "n < 10 ^ 23"
  shows "of_int m / 100 \<le> toFixed2 x \<and> toFixed2 x \<le> of_int n / 100"
proof -
  have x0: "0 \<le> x" using assms(1,3)
    by (meson divide_nonneg_pos of_int_nonneg order_trans zero_less_numeral)
  show ?thesis
  proof (cases "10 ^ 21 \<le> \<bar>x\<bar>")
    case True
    then show ?thesis using assms by (simp add: toFixed2_def)
  next
    case False
    have lo: "m \<le> \<lfloor>x * 100 + 1 / 2\<rfloor>"
      using assms(1) by (simp add: le_floor_iff field_simps)
    have "x * 100 + 1 / 2 < of_int (n + 1)" using assms(2) by (simp add: field_simps)
    then have "\<lfloor>x * 100 + 1 / 2\<rfloor> < n + 1"
      by (simp only: floor_less_iff)
    then have hi: "\<lfloor>x * 100 + 1 / 2\<rfloor> \<le> n" by simp
    from lo hi False x0 show ?thesis
      by (simp add: toFixed2_def divide_right_mono)
  qed
qed

lemma toFixed2_range:
  assumes "of_int m / 100 \<le> x" and "x \<le> of_int n / 100" and "0 \<le> m" and "n < 10 ^ 23"
    and "a = of_int m / 100" and "b = of_int n / 100"
  shows "a \<le> toFixed2 x \<and> toFixed2 x \<le> b"
  using toFixed2_between [OF assms(1-4)] assms(5,6) by simp

subsection \<open>The crash-point generator\<close>

lemma weightedBand_state:
  "snd (weightedBand g) = g\<lparr>random_calls := random_calls g + 2\<rparr>"
  by (simp add: weightedBand_def Math_random_def Let_def)

lemma weightedBand_value:
  "fst (weightedBand g) =
     (let roll = random_src g (random_calls g) * 100; u = random_src g (random_calls g + 1) in
      if roll < 55 then toFixed2 (1 + u)
      else if roll < 80 then toFixed2 (u * 8 + 2)
      else if roll < 95 then toFixed2 (u * 20 + 10)
      else toFixed2 (u * 20 + 30))"
  by (simp add: weightedBand_def Math_random_def Let_def)

lemma generateCrashPoint_high:
  assumes "takesHighBranch g"
  shows "generateCrashPoint g =
           (toFixed2 (random_src g (random_calls g + 1) * 30 + 20),
            g\<lparr>crashCounter := 0, random_calls := random_calls g + 2\<rparr>)"
  using assms
  by (simp add: takesHighBranch_def coinDrawn_def generateCrashPoint_def Math_random_def Let_def)

lemma generateCrashPoint_band:
  assumes "\<not> takesHighBranch g"
  shows "generateCrashPoint g =
           weightedBand (g\<lparr>crashCounter := crashCounter g + 1,
                           random_calls := random_calls g + (if coinDrawn g then 1 else 0)\<rparr>)"
  using assms
  by (simp add: takesHighBranch_def coinDrawn_def generateCrashPoint_def Math_random_def Let_def)

lemma band_ranges:
  assumes "0 \<le> u" and "u < 1"
  shows "1 \<le> toFixed2 (1 + u) \<and> toFixed2 (1 + u) \<le> 2"
    and "2 \<le> toFixed2 (u * 8 + 2) \<and> toFixed2 (u * 8 + 2) \<le> 10"
    and "10 \<le> toFixed2 (u * 20 + 10) \<and> toFixed2 (u * 20 + 10) \<le> 30"
    and "30 \<le> toFixed2 (u * 20 + 30) \<and> toFixed2 (u * 20 + 30) \<le> 50"
    and "20 \<le> toFixed2 (u * 30 + 20) \<and> toFixed2 (u * 30 + 20) \<le> 50"
proof -
  show "1 \<le> toFixed2 (1 + u) \<and> toFixed2 (1 + u) \<le> 2"
    using assms by (intro toFixed2_range [where m = 100 and n = 200]) simp_all
  show "2 \<le> toFixed2 (u * 8 + 2) \<and> toFixed2 (u * 8 + 2) \<le> 10"
    using assms by (intro toFixed2_range [where m = 200 and n = 1000]) simp_all
  show "10 \<le> toFixed2 (u * 20 + 10) \<and> toFixed2 (u * 20 + 10) \<le> 30"
    using assms by (intro toFixed2_range [where m = 1000 and n = 3000]) simp_all
  show "30 \<le> toFixed2 (u * 20 + 30) \<and> toFixed2 (u * 20 + 30) \<le> 50"
    using assms by (intro toFixed2_range [where m = 3000 and n = 5000]) simp_all
  show "20 \<le> toFixed2 (u * 30 + 20) \<and> toFixed2 (u * 30 + 20) \<le> 50"
    using assms by (intro toFixed2_range [where m = 2000 and n = 5000]) simp_all
qed

lemma weightedBand_range:
  assumes "unitDraws (random_src g)"
  shows "1 \<le> fst (weightedBand g) \<and> fst (weightedBand g) \<le> 50
         \<and> toFixed2 (fst (weightedBand g)) = fst (weightedBand g)"
proof -
  define u where "u = random_src g (random_calls g + 1)"
  have u: "0 \<le> u" "u < 1" using assms by (simp_all add: unitDraws_def u_def)
  have "fst (weightedBand g) \<in> {toFixed2 (1 + u), toFixed2 (u * 8 + 2),
      toFixed2 (u * 20 + 10), toFixed2 (u * 20 + 30)}"
    unfolding weightedBand_value u_def Let_def by simp
  then show ?thesis
    using band_ranges(1-4) [OF u] by (auto simp: toFixed2_idem)
qed

text \<open>
  C1 (with the lower bound made inclusive). Whatever the counter and the draws in
  \<open>[0, 1)\<close> are, the crash point returned by \<open>generateCrashPoint\<close> is at least
  \<open>1.00\<close>, at most \<open>50.00\<close>, and equal to itself rounded to two decimals.
\<close>

theorem generateCrashPoint_range:
  assumes "unitDraws (random_src g)"
  shows "1 \<le> fst (generateCrashPoint g) \<and> fst (generateCrashPoint g) \<le> 50
         \<and> toFixed2 (fst (generateCrashPoint g)) = fst (generateCrashPoint g)"
proof (cases "takesHighBranch g")
  case True
  have "0 \<le> random_src g (random_calls g + 1)" "random_src g (random_calls g + 1) < 1"
    using assms by (simp_all add: unitDraws_def)
  from band_ranges(5) [OF this] show ?thesis
    by (simp add: generateCrashPoint_high [OF True] toFixed2_idem)
next
  case False
  show ?thesis
    unfolding generateCrashPoint_band [OF False]
    by (rule weightedBand_range) (simp add: assms)
qed

lemma unitDraws_mocked: "list_all (\<lambda>x. 0 \<le> x \<and> x < 1) xs \<Longrightarrow> unitDraws (mocked xs)"
  by (simp add: unitDraws_def mocked_def list_all_length)

theorem generateCrashPoint_range_witness:
  "unitDraws (mocked [1 / 10, 1 / 2])
   \<and> 1 \<le> fst (generateCrashPoint \<lparr>crashCounter = 0, random_src = mocked [1 / 10, 1 / 2],
                                    random_calls = 0\<rparr>)
   \<and> fst (generateCrashPoint \<lparr>crashCounter = 0, random_src = mocked [1 / 10, 1 / 2],
                                random_calls = 0\<rparr>) \<le> 50"
proof -
  have h: "unitDraws (mocked [1 / 10, 1 / 2])"
    by (rule unitDraws_mocked) simp
  show ?thesis
    using h generateCrashPoint_range
      [of "\<lparr>crashCounter = 0, random_src = mocked [1 / 10, 1 / 2], random_calls = 0\<rparr>"]
    by simp
qed

text \<open>
  The strict lower bound fails: with a band roll of \<open>10\<close> and a value draw of
  \<open>0.002\<close> the call returns \<open>+(1.002).toFixed(2) = 1\<close>.
\<close>

theorem generateCrashPoint_one_counterexample:
  "unitDraws (mocked [1 / 10, 1 / 500])
   \<and> \<not> 1 < fst (generateCrashPoint \<lparr>crashCounter = 0, random_src = mocked [1 / 10, 1 / 500],
                                       random_calls = 0\<rparr>)"
proof -
  have "unitDraws (mocked [1 / 10, 1 / 500])"
    by (rule unitDraws_mocked) simp
  moreover have "fst (generateCrashPoint \<lparr>crashCounter = 0,
      random_src = mocked [1 / 10, 1 / 500], random_calls = 0\<rparr>) = 1"
    by (simp add: generateCrashPoint_def weightedBand_def Math_random_def mocked_def
        toFixed2_def floor_rat_numeral)
  ultimately show ?thesis by simp
qed

text \<open>Every two-decimal value from \<open>20.00\<close> to \<open>50.00\<close> is the result of the
  high-value formula for some draw.\<close>

lemma high_value_attained:
  assumes "2000 \<le> j" and "j \<le> 5000"
  shows "\<exists>u. 0 \<le> u \<and> u < 1 \<and> toFixed2 (u * 30 + 20) = of_int j / 100"
proof (cases "j = 5000")
  case True
  have "toFixed2 (29999 / 30000 * 30 + 20) = 50"
    by (simp add: toFixed2_def floor_rat_numeral)
  then have "(0::rat) \<le> 29999 / 30000 \<and> (29999 / 30000 :: rat) < 1
      \<and> toFixed2 (29999 / 30000 * 30 + 20) = of_int j / 100"
    using True by simp
  then show ?thesis by blast
next
  case False
  define u :: rat where "u = of_int (j - 2000) / 3000"
  have "u * 30 + 20 = of_int j / 100"
    by (simp add: u_def field_simps)
  then have "toFixed2 (u * 30 + 20) = of_int j / 100"
    by (simp only: toFixed2_grid)
  moreover have "0 \<le> u" "u < 1"
    using assms False by (simp_all add: u_def)
  ultimately show ?thesis by blast
qed

text \<open>
  C2. When the incremented counter lies in \<open>[7, 15]\<close> and the coin draw is below
  \<open>0.3\<close>, the call returns \<open>30 u + 20\<close> rounded to two decimals, where \<open>u\<close> is
  the next draw of the random source, and leaves the counter at \<open>0\<close>. The result is
  a two-decimal value of \<open>[20.00, 50.00]\<close>, and every such value is the result for
  some draw. How the values are distributed is the random source's property: the
  branch is taken on the event \<open>coin < 0.3\<close>, and the result is the image of a
  draw under an increasing affine map.
\<close>

theorem generateCrashPoint_high_value:
  assumes "unitDraws (random_src g)"
    and "7 \<le> crashCounter g + 1" and "crashCounter g + 1 \<le> 15"
    and "random_src g (random_calls g) < 3 / 10"
  shows "fst (generateCrashPoint g) = toFixed2 (random_src g (random_calls g + 1) * 30 + 20)
         \<and> 20 \<le> fst (generateCrashPoint g) \<and> fst (generateCrashPoint g) \<le> 50
         \<and> toFixed2 (fst (generateCrashPoint g)) = fst (generateCrashPoint g)
         \<and> crashCounter (snd (generateCrashPoint g)) = 0
         \<and> random_calls (snd (generateCrashPoint g)) = random_calls g + 2
         \<and> (\<forall>j. 2000 \<le> j \<and> j \<le> 5000 \<longrightarrow>
                (\<exists>u. 0 \<le> u \<and> u < 1 \<and> toFixed2 (u * 30 + 20) = of_int j / 100))"
proof -
  have high: "takesHighBranch g"
    using assms(2-4) by (simp add: takesHighBranch_def coinDrawn_def)
  have "0 \<le> random_src g (random_calls g + 1)" "random_src g (random_calls g + 1) < 1"
    using assms(1) by (simp_all add: unitDraws_def)
  from band_ranges(5) [OF this] high_value_attained show ?thesis
    by (simp add: generateCrashPoint_high [OF high] toFixed2_idem)
qed

theorem generateCrashPoint_high_value_witness:
  "unitDraws (mocked [1 / 5, 1 / 2])
   \<and> fst (generateCrashPoint \<lparr>crashCounter = 9, random_src = mocked [1 / 5, 1 / 2],
                                random_calls = 0\<rparr>) = 35
   \<and> crashCounter (snd (generateCrashPoint \<lparr>crashCounter = 9,
         random_src = mocked [1 / 5, 1 / 2], random_calls = 0\<rparr>)) = 0"
proof -
  have h: "unitDraws (mocked [1 / 5, 1 / 2])"
    by (rule unitDraws_mocked) simp
  have t: "toFixed2 35 = 35"
    using toFixed2_grid [of 3500] by simp
  show ?thesis
    using h generateCrashPoint_high_value
      [of "\<lparr>crashCounter = 9, random_src = mocked [1 / 5, 1 / 2], random_calls = 0\<rparr>"]
    by (simp add: mocked_def t)
qed

text \<open>
  C3. A call that does not take the high-value branch draws the band roll
  \<open>r = 100 u\<^sub>1\<close> (after the coin draw, if the counter asked for one) and one more
  draw \<open>u\<close>, and returns the value of the band that \<open>r\<close> selects, \<open>1 + u\<close>,
  \<open>8 u + 2\<close>, \<open>20 u + 10\<close> or \<open>20 u + 30\<close>, rounded to two decimals: the
  result is a whole number of hundredths, at most half a hundredth away from the band
  value, and lies in the band's range. The counter is the incremented one, not
  reset.
\<close>

theorem generateCrashPoint_bands:
  assumes "unitDraws (random_src g)"
    and "\<not> takesHighBranch g"
    and "r = random_src g (random_calls g + (if coinDrawn g then 1 else 0)) * 100"
    and "u = random_src g (random_calls g + (if coinDrawn g then 2 else 1))"
    and "v = fst (generateCrashPoint g)"
  shows "0 \<le> r \<and> r < 100
         \<and> (r < 55 \<longrightarrow>
              v = toFixed2 (1 + u) \<and> \<bar>v - (1 + u)\<bar> \<le> 1 / 200 \<and> 1 \<le> v \<and> v \<le> 2)
         \<and> (55 \<le> r \<and> r < 80 \<longrightarrow>
              v = toFixed2 (u * 8 + 2) \<and> \<bar>v - (u * 8 + 2)\<bar> \<le> 1 / 200 \<and> 2 \<le> v \<and> v \<le> 10)
         \<and> (80 \<le> r \<and> r < 95 \<longrightarrow>
              v = toFixed2 (u * 20 + 10) \<and> \<bar>v - (u * 20 + 10)\<bar> \<le> 1 / 200
              \<and> 10 \<le> v \<and> v \<le> 30)
         \<and> (95 \<le> r \<and> r < 100 \<longrightarrow>
              v = toFixed2 (u * 20 + 30) \<and> \<bar>v - (u * 20 + 30)\<bar> \<le> 1 / 200
              \<and> 30 \<le> v \<and> v \<le> 50)
         \<and> (\<exists>k::int. v = of_int k / 100)
         \<and> toFixed2 v = v
         \<and> crashCounter (snd (generateCrashPoint g)) = crashCounter g + 1
         \<and> random_calls (snd (generateCrashPoint g))
             = random_calls g + (if coinDrawn g then 3 else 2)"
proof -
  define h where "h = g\<lparr>crashCounter := crashCounter g + 1,
    random_calls := random_calls g + (if coinDrawn g then 1 else 0)\<rparr>"
  have gen: "generateCrashPoint g = weightedBand h"
    unfolding h_def by (rule generateCrashPoint_band [OF assms(2)])
  have r: "r = random_src h (random_calls h) * 100"
    by (simp add: assms(3) h_def)
  have u_h: "u = random_src h (random_calls h + 1)"
    by (simp add: assms(4) h_def)
  have u: "0 \<le> u" "u < 1"
    using assms(1) by (simp_all add: unitDraws_def assms(4))
  have r_range: "0 \<le> r" "r < 100"
    using assms(1) by (simp_all add: unitDraws_def assms(3))
  define y where "y = (if r < 55 then 1 + u
      else if r < 80 then u * 8 + 2
      else if r < 95 then u * 20 + 10
      else u * 20 + 30)"
  have v: "v = toFixed2 y"
    unfolding assms(5) gen weightedBand_value r u_h y_def Let_def by simp
  have "\<bar>y\<bar> < 10 ^ 21"
    using u by (simp add: y_def abs_if)
  from toFixed2_hundredths [OF this] have grid: "\<exists>k::int. v = of_int k / 100"
    by (simp only: v)
  have fixed: "toFixed2 v = v"
    unfolding v by (rule toFixed2_idem)
  have state: "crashCounter (snd (generateCrashPoint g)) = crashCounter g + 1"
    "random_calls (snd (generateCrashPoint g)) = random_calls g + (if coinDrawn g then 3 else 2)"
    by (simp_all add: gen weightedBand_state h_def)
  have bands: "(r < 55 \<longrightarrow> v = toFixed2 (1 + u) \<and> \<bar>v - (1 + u)\<bar> \<le> 1 / 200 \<and> 1 \<le> v \<and> v \<le> 2)
      \<and> (55 \<le> r \<and> r < 80 \<longrightarrow>
            v = toFixed2 (u * 8 + 2) \<and> \<bar>v - (u * 8 + 2)\<bar> \<le> 1 / 200 \<and> 2 \<le> v \<and> v \<le> 10)
      \<and> (80 \<le> r \<and> r < 95 \<longrightarrow>
            v = toFixed2 (u * 20 + 10) \<and> \<bar>v - (u * 20 + 10)\<bar> \<le> 1 / 200
            \<and> 10 \<le> v \<and> v \<le> 30)
      \<and> (95 \<le> r \<and> r < 100 \<longrightarrow>
            v = toFixed2 (u * 20 + 30) \<and> \<bar>v - (u * 20 + 30)\<bar> \<le> 1 / 200
            \<and> 30 \<le> v \<and> v \<le> 50)"
    using band_ranges(1-4) [OF u] toFixed2_near [of "1 + u"] toFixed2_near [of "u * 8 + 2"]
      toFixed2_near [of "u * 20 + 10"] toFixed2_near [of "u * 20 + 30"]
    unfolding v y_def by simp
  from r_range bands grid fixed state show ?thesis
    by blast
qed

theorem generateCrashPoint_bands_witness:
  "unitDraws (mocked [1 / 10, 1 / 3]) \<and> unitDraws (mocked [11 / 20, 1 / 3])
   \<and> unitDraws (mocked [4 / 5, 1 / 3]) \<and> unitDraws (mocked [19 / 20, 1 / 3])
   \<and> fst (generateCrashPoint \<lparr>crashCounter = 0, random_src = mocked [1 / 10, 1 / 3],
                                random_calls = 0\<rparr>) = 133 / 100
   \<and> fst (generateCrashPoint \<lparr>crashCounter = 0, random_src = mocked [11 / 20, 1 / 3],
                                random_calls = 0\<rparr>) = 467 / 100
   \<and> fst (generateCrashPoint \<lparr>crashCounter = 0, random_src = mocked [4 / 5, 1 / 3],
                                random_calls = 0\<rparr>) = 1667 / 100
   \<and> fst (generateCrashPoint \<lparr>crashCounter = 0, random_src = mocked [19 / 20, 1 / 3],
                                random_calls = 0\<rparr>) = 3667 / 100"
proof -
  have h: "unitDraws (mocked [1 / 10, 1 / 3])" "unitDraws (mocked [11 / 20, 1 / 3])"
    "unitDraws (mocked [4 / 5, 1 / 3])" "unitDraws (mocked [19 / 20, 1 / 3])"
    by (rule unitDraws_mocked, simp)+
  have low: "\<not> takesHighBranch \<lparr>crashCounter = 0, random_src = f, random_calls = 0\<rparr>" for f
    by (simp add: takesHighBranch_def coinDrawn_def)
  have nocoin: "\<not> coinDrawn \<lparr>crashCounter = 0, random_src = f, random_calls = 0\<rparr>" for f
    by (simp add: coinDrawn_def)
  show ?thesis
    using h
      generateCrashPoint_bands [OF _ low refl refl refl, of "mocked [1 / 10, 1 / 3]"]
      generateCrashPoint_bands [OF _ low refl refl refl, of "mocked [11 / 20, 1 / 3]"]
      generateCrashPoint_bands [OF _ low refl refl refl, of "mocked [4 / 5, 1 / 3]"]
      generateCrashPoint_bands [OF _ low refl refl refl, of "mocked [19 / 20, 1 / 3]"]
    by (simp add: nocoin mocked_def toFixed2_def floor_rat_numeral)
qed

lemma past_window_step:
  assumes "15 < crashCounter g"
  shows "\<not> takesHighBranch g"
    and "crashCounter (snd (generateCrashPoint g)) = crashCounter g + 1"
proof -
  show high: "\<not> takesHighBranch g"
    using assms by (simp add: takesHighBranch_def coinDrawn_def)
  show "crashCounter (snd (generateCrashPoint g)) = crashCounter g + 1"
    by (simp add: generateCrashPoint_band [OF high] weightedBand_state)
qed

lemma past_window_counter:
  "15 < crashCounter g \<Longrightarrow> crashCounter (afterCalls n g) = crashCounter g + n"
proof (induction n)
  case 0
  show ?case by simp
next
  case (Suc n)
  then have "15 < crashCounter (afterCalls n g)" by simp
  from past_window_step(2) [OF this] Suc show ?case
    by simp
qed

text \<open>
  C10. Once the counter is above \<open>15\<close>, no later call takes the high-value branch,
  whatever the draws are, and every call adds exactly one to the counter: after
  \<open>n\<close> calls it is \<open>n\<close> higher, and it is never reset.
\<close>

theorem dry_spell_breaker_disabled:
  assumes "15 < crashCounter g"
  shows "\<not> takesHighBranch (afterCalls n g)
         \<and> crashCounter (afterCalls (Suc n) g) = crashCounter (afterCalls n g) + 1
         \<and> crashCounter (afterCalls n g) = crashCounter g + n
         \<and> fst (generateCrashPoint (afterCalls n g))
             = fst (weightedBand (afterCalls n g))"
proof -
  have c: "crashCounter (afterCalls n g) = crashCounter g + n"
    by (rule past_window_counter [OF assms])
  then have past: "15 < crashCounter (afterCalls n g)"
    using assms by simp
  have nocoin: "\<not> coinDrawn (afterCalls n g)"
    using past by (simp add: coinDrawn_def)
  have "fst (generateCrashPoint (afterCalls n g)) = fst (weightedBand (afterCalls n g))"
    by (simp add: generateCrashPoint_band [OF past_window_step(1) [OF past]] nocoin
        weightedBand_value)
  with past_window_step [OF past] c show ?thesis
    by simp
qed

theorem dry_spell_breaker_disabled_witness:
  "(15::nat) < 16
   \<and> \<not> takesHighBranch (afterCalls 3 \<lparr>crashCounter = 16, random_src = mocked [],
                                       random_calls = 0\<rparr>)
   \<and> crashCounter (afterCalls 3 \<lparr>crashCounter = 16, random_src = mocked [],
                                   random_calls = 0\<rparr>) = 19"
  using dry_spell_breaker_disabled
    [of "\<lparr>crashCounter = 16, random_src = mocked [], random_calls = 0\<rparr>" 3]
  by simp

subsection \<open>The tables\<close>

lemma strict_sorted_map_sorted:
  "sorted_wrt (<) (map f xs) \<Longrightarrow> sorted (map (f :: 'a \<Rightarrow> nat) xs)"
  by (simp add: strict_sorted_iff)

lemma strict_sorted_map_distinct:
  "sorted_wrt (<) (map f xs) \<Longrightarrow> distinct (map (f :: 'a \<Rightarrow> nat) xs)"
  by (simp add: strict_sorted_iff)

lemma newest_logs_sorted:
  assumes "sorted_wrt (<) (map log_id tbl)"
  shows "newest_logs n tbl = take n (rev tbl)"
  using sort_key_id_if_sorted [OF strict_sorted_map_sorted [OF assms]]
  by (simp add: newest_logs_def)

lemma select_earliest_sorted:
  assumes "sorted_wrt (<) (map row_id (luckyjet_round st))"
  shows "select_earliest st = take 1 (luckyjet_round st)"
  using sort_key_id_if_sorted [OF strict_sorted_map_sorted [OF assms]]
  by (simp add: select_earliest_def)

text \<open>Keeping the rows whose key occurs in a suffix keeps exactly that suffix.\<close>

lemma filter_suffix_keys:
  assumes "distinct (map f xs)"
  shows "filter (\<lambda>r. f r \<in> set (map f (drop k xs))) xs = drop k xs"
proof -
  have d: "distinct (map f (take k xs) @ map f (drop k xs))"
    using assms by (metis append_take_drop_id map_append)
  have a: "filter (\<lambda>r. f r \<in> set (map f (drop k xs))) (take k xs) = []"
    using d by (auto simp: filter_empty_conv)
  have b: "filter (\<lambda>r. f r \<in> set (map f (drop k xs))) (drop k xs) = drop k xs"
    by (simp add: filter_id_conv)
  have "filter (\<lambda>r. f r \<in> set (map f (drop k xs))) (take k xs @ drop k xs) = drop k xs"
    unfolding filter_append a b by simp
  then show ?thesis by simp
qed

lemma maintainLogLimit_sorted:
  assumes "sorted_wrt (<) (map log_id (luckyjet_round_log st))"
  shows "luckyjet_round_log (maintainLogLimit st)
         = drop (length (luckyjet_round_log st) - 200) (luckyjet_round_log st)"
proof -
  let ?L = "luckyjet_round_log st"
  have "set (map log_id (newest_logs 200 ?L)) = set (map log_id (drop (length ?L - 200) ?L))"
    by (simp add: newest_logs_sorted [OF assms] take_rev)
  then show ?thesis
    using filter_suffix_keys [OF strict_sorted_map_distinct [OF assms], of "length ?L - 200"]
    by (simp add: maintainLogLimit_def)
qed

lemma maintainLogLimit_other [simp]:
  "luckyjet_round (maintainLogLimit st) = luckyjet_round st"
  "round_auto_increment (maintainLogLimit st) = round_auto_increment st"
  "log_auto_increment (maintainLogLimit st) = log_auto_increment st"
  by (simp_all add: maintainLogLimit_def)

lemma wf_store_insert_round: "wf_store st \<Longrightarrow> wf_store (insert_round rid cp st)"
  unfolding wf_store_def insert_round_def
  by (auto simp: sorted_wrt_append list_all_iff)

lemma wf_store_insert_log: "wf_store st \<Longrightarrow> wf_store (insert_log rid cp st)"
  unfolding wf_store_def insert_log_def
  by (auto simp: sorted_wrt_append list_all_iff)

lemma update_running_keys:
  "map row_id (map (\<lambda>r. if row_id r = i then r\<lparr>isRunning := True\<rparr> else r) xs)
   = map row_id xs"
  by (induction xs) simp_all

lemma update_running_below:
  "list_all (\<lambda>r. row_id r < k) xs \<Longrightarrow>
   list_all (\<lambda>r. row_id r < k)
     (map (\<lambda>r. if row_id r = i then r\<lparr>isRunning := True\<rparr> else r) xs)"
  by (induction xs) simp_all

lemma wf_store_update_running: "wf_store st \<Longrightarrow> wf_store (update_running i st)"
  unfolding wf_store_def update_running_def
  by (simp add: update_running_keys update_running_below del: map_map)

lemma wf_store_delete_round: "wf_store st \<Longrightarrow> wf_store (delete_round i st)"
  unfolding wf_store_def delete_round_def
  by (simp add: list_all_iff sorted_wrt_map sorted_wrt_filter)

lemma wf_store_maintainLogLimit: "wf_store st \<Longrightarrow> wf_store (maintainLogLimit st)"
proof -
  assume wf: "wf_store st"
  then have s: "sorted_wrt (<) (map log_id (luckyjet_round_log st))"
    by (simp add: wf_store_def)
  have "sorted_wrt (<) (drop k (map log_id (luckyjet_round_log st)))" for k
    using s by (rule sorted_wrt_drop)
  moreover have "list_all P (drop k xs)" if "list_all P xs" for P k and xs :: "log_row list"
    using that by (auto simp: list_all_iff dest: in_set_dropD)
  ultimately show ?thesis
    using wf by (simp add: wf_store_def maintainLogLimit_sorted [OF s] drop_map)
qed


lemma create_tables_created [simp]: "tables_created (create_tables st)"
  by (simp add: create_tables_def empty_store_def)

lemma create_tables_fresh [simp]: "create_tables fresh_database = empty_store"
  by (simp add: create_tables_def fresh_database_def)

lemma create_tables_existing: "tables_created st \<Longrightarrow> create_tables st = st"
  by (simp add: create_tables_def)

lemma wf_store_create_tables: "wf_store st \<Longrightarrow> wf_store (create_tables st)"
  by (simp add: create_tables_def wf_store_def empty_store_def)

lemma tables_created_kept [simp]:
  "tables_created (insert_round rid cp st) = tables_created st"
  "tables_created (insert_log rid cp st) = tables_created st"
  "tables_created (update_running i st) = tables_created st"
  "tables_created (delete_round i st) = tables_created st"
  "tables_created (maintainLogLimit st) = tables_created st"
  by (simp_all add: insert_round_def insert_log_def update_running_def delete_round_def
      maintainLogLimit_def)

subsection \<open>\<open>prefillRounds\<close>\<close>

declare prefill_loop.simps [simp del]

lemma prefill_body_db:
  "db (prefill_body i w)
   = insert_round (clock w (clock_reads w) + int i * 1000) (fst (generateCrashPoint (gen w)))
       (db w)"
  by (simp add: prefill_body_def Date_now_def Let_def split: prod.split)

lemma prefill_body_frame [simp]:
  "currentRound (prefill_body i w) = currentRound w"
  "isCrashed (prefill_body i w) = isCrashed w"
  "liveScore (prefill_body i w) = liveScore w"
  "emitted (prefill_body i w) = emitted w"
  "interval_set (prefill_body i w) = interval_set w"
  "pc (prefill_body i w) = pc w"
  "gen (prefill_body i w) = snd (generateCrashPoint (gen w))"
  by (simp_all add: prefill_body_def Date_now_def Let_def split: prod.split)

lemma insert_round_fields [simp]:
  "luckyjet_round_log (insert_round rid cp st) = luckyjet_round_log st"
  "log_auto_increment (insert_round rid cp st) = log_auto_increment st"
  "count_rounds (insert_round rid cp st) = count_rounds st + 1"
  "running (insert_round rid cp st) = running st"
  by (simp_all add: insert_round_def count_rounds_def running_def)

text \<open>Whatever one pass of the loop body preserves, the loop preserves.\<close>

lemma prefill_loop_preserves:
  assumes "\<And>i w. P w \<Longrightarrow> P (prefill_body i w)" and "P w"
  shows "P (prefill_loop i remaining w)"
  using assms(2)
proof (induction i remaining w rule: prefill_loop.induct)
  case (1 i remaining w)
  show ?case
  proof (cases "int i < remaining")
    case True
    have "P (prefill_body i w)" using "1.prems" by (rule assms(1))
    with "1.IH" [OF True] show ?thesis
      using True by (subst prefill_loop.simps) simp
  next
    case False
    then show ?thesis using "1.prems" by (subst prefill_loop.simps) simp
  qed
qed

lemma prefill_loop_count:
  "count_rounds (db (prefill_loop i remaining w))
   = count_rounds (db w) + nat (remaining - int i)"
proof (induction i remaining w rule: prefill_loop.induct)
  case (1 i remaining w)
  show ?case
  proof (cases "int i < remaining")
    case True
    have "nat (remaining - int i) = nat (remaining - int (i + 1)) + 1"
      using True by simp
    with "1.IH" [OF True] show ?thesis
      using True by (subst prefill_loop.simps) (simp add: prefill_body_db)
  next
    case False
    then show ?thesis by (subst prefill_loop.simps) simp
  qed
qed

text \<open>\<open>prefillRounds\<close> brings a backlog of at most 30 rows to exactly 30 and leaves a
  longer one alone.\<close>

lemma prefillRounds_count:
  "count_rounds (db (prefillRounds w)) = max 30 (count_rounds (db w))"
  by (simp add: prefillRounds_def Let_def prefill_loop_count)

lemma prefillRounds_frame:
  "wf_store (db w) \<Longrightarrow> wf_store (db (prefillRounds w))"
  "luckyjet_round_log (db (prefillRounds w)) = luckyjet_round_log (db w)"
  "running (db (prefillRounds w)) = running (db w)"
  "currentRound (prefillRounds w) = currentRound w"
  "isCrashed (prefillRounds w) = isCrashed w"
  "liveScore (prefillRounds w) = liveScore w"
  "emitted (prefillRounds w) = emitted w"
  "interval_set (prefillRounds w) = interval_set w"
  "pc (prefillRounds w) = pc w"
  "tables_created (db (prefillRounds w)) = tables_created (db w)"
proof -
  show "wf_store (db w) \<Longrightarrow> wf_store (db (prefillRounds w))"
    unfolding prefillRounds_def Let_def
    by (rule prefill_loop_preserves) (simp_all add: prefill_body_db wf_store_insert_round)
  show "luckyjet_round_log (db (prefillRounds w)) = luckyjet_round_log (db w)"
    unfolding prefillRounds_def Let_def
    by (rule prefill_loop_preserves) (simp_all add: prefill_body_db)
  show "running (db (prefillRounds w)) = running (db w)"
    unfolding prefillRounds_def Let_def
    by (rule prefill_loop_preserves) (simp_all add: prefill_body_db)
  show "currentRound (prefillRounds w) = currentRound w"
    unfolding prefillRounds_def Let_def by (rule prefill_loop_preserves) simp_all
  show "isCrashed (prefillRounds w) = isCrashed w"
    unfolding prefillRounds_def Let_def by (rule prefill_loop_preserves) simp_all
  show "liveScore (prefillRounds w) = liveScore w"
    unfolding prefillRounds_def Let_def by (rule prefill_loop_preserves) simp_all
  show "emitted (prefillRounds w) = emitted w"
    unfolding prefillRounds_def Let_def by (rule prefill_loop_preserves) simp_all
  show "interval_set (prefillRounds w) = interval_set w"
    unfolding prefillRounds_def Let_def by (rule prefill_loop_preserves) simp_all
  show "pc (prefillRounds w) = pc w"
    unfolding prefillRounds_def Let_def by (rule prefill_loop_preserves) simp_all
  show "tables_created (db (prefillRounds w)) = tables_created (db w)"
    unfolding prefillRounds_def Let_def
    by (rule prefill_loop_preserves) (simp_all add: prefill_body_db)
qed

subsection \<open>The transitions, field by field\<close>

lemma setupTables_fields [simp]:
  "db (setupTables w) = create_tables (db w)"
  "currentRound (setupTables w) = currentRound w"
  "isCrashed (setupTables w) = isCrashed w"
  "liveScore (setupTables w) = liveScore w"
  "gen (setupTables w) = gen w"
  "clock (setupTables w) = clock w"
  "clock_reads (setupTables w) = clock_reads w"
  "emitted (setupTables w) = emitted w"
  "interval_set (setupTables w) = interval_set w"
  "pc (setupTables w) = pc w"
  by (simp_all add: setupTables_def)

lemma setupTables_existing: "tables_created (db w) \<Longrightarrow> setupTables w = w"
  by (simp add: setupTables_def create_tables_existing)

lemma boot_fields:
  "db (boot w) = db (prefillRounds (setupTables w))"
  "currentRound (boot w) = currentRound w"
  "isCrashed (boot w) = isCrashed w"
  "liveScore (boot w) = liveScore w"
  "emitted (boot w) = emitted w"
  "interval_set (boot w) = interval_set w"
  "pc (boot w) = BacklogCheck"
  "tables_created (db (boot w))"
  by (simp_all add: boot_def prefillRounds_frame)

lemma backlogCheck_empty:
  assumes "select_earliest (db w) = []"
  shows "backlogCheck w = prefillRounds w"
  using assms by (simp add: backlogCheck_def)

lemma backlogCheck_round:
  assumes "select_earliest (db w) = r # rest"
  shows "backlogCheck w
         = w\<lparr>currentRound := Some r, isCrashed := False, liveScore := 1, pc := RoundStart\<rparr>"
  using assms by (simp add: backlogCheck_def)

lemma roundStart_fields:
  assumes "currentRound w = Some r"
  shows "db (roundStart w) = update_running (row_id r) (db w)"
    and "currentRound (roundStart w) = Some r"
    and "isCrashed (roundStart w) = isCrashed w"
    and "liveScore (roundStart w) = liveScore w"
    and "emitted (roundStart w)
         = emitted w @ [Emit_roundStart (roundId r) (crashPoint r)
                          (getLast20Rounds (update_running (row_id r) (db w)))]"
    and "interval_set (roundStart w)"
    and "pc (roundStart w) = LiveProgression"
  using assms by (simp_all add: roundStart_def Let_def)

lemma tick_crashed: "isCrashed w \<Longrightarrow> tick w = w"
  by (simp add: tick_def)

lemma tick_fields:
  assumes "currentRound w = Some r" and "\<not> isCrashed w"
  shows "db (tick w) = db w"
    and "currentRound (tick w) = Some r"
    and "liveScore (tick w) = toFixed2 (advance (liveScore w))"
    and "isCrashed (tick w) = (crashPoint r \<le> liveScore (tick w))"
    and "emitted (tick w)
         = emitted w @ Emit_liveScore (liveScore (tick w))
             # (if crashPoint r \<le> liveScore (tick w) then [Emit_crashed (crashPoint r)] else [])"
    and "interval_set (tick w) = (interval_set w \<and> \<not> crashPoint r \<le> liveScore (tick w))"
    and "pc (tick w) = (if crashPoint r \<le> liveScore (tick w) then Settle else pc w)"
    and "gen (tick w) = gen w"
  using assms by (simp_all add: tick_def Let_def)

lemma settle_fields:
  assumes "currentRound w = Some r"
  shows "db (settle w)
         = insert_round (clock w (clock_reads w)) (fst (generateCrashPoint (gen w)))
             (maintainLogLimit (insert_log (roundId r) (crashPoint r)
                (delete_round (row_id r) (db w))))"
    and "currentRound (settle w) = Some r"
    and "isCrashed (settle w) = isCrashed w"
    and "liveScore (settle w) = liveScore w"
    and "emitted (settle w) = emitted w"
    and "interval_set (settle w) = interval_set w"
    and "pc (settle w) = InterRoundPause"
    and "gen (settle w) = snd (generateCrashPoint (gen w))"
  using assms by (simp_all add: settle_def Date_now_def Let_def split: prod.split)

subsection \<open>Rows whose flag is set\<close>

lemma running_update_running:
  assumes "distinct (map row_id xs)" and "r \<in> set xs" and "filter isRunning xs = []"
  shows "filter isRunning (map (\<lambda>x. if row_id x = row_id r then x\<lparr>isRunning := True\<rparr> else x) xs)
         = [r\<lparr>isRunning := True\<rparr>]"
  using assms
proof (induction xs)
  case Nil
  then show ?case by simp
next
  case (Cons x xs)
  show ?case
  proof (cases "x = r")
    case True
    have "row_id y \<noteq> row_id r" if "y \<in> set xs" for y
      using Cons.prems(1) True that by (force simp: image_iff)
    then have "map (\<lambda>x. if row_id x = row_id r then x\<lparr>isRunning := True\<rparr> else x) xs = xs"
      by (simp add: map_idI)
    with Cons.prems(3) True show ?thesis
      by (simp split: if_splits)
  next
    case False
    then have r: "r \<in> set xs" using Cons.prems(2) by simp
    then have "row_id x \<noteq> row_id r" using Cons.prems(1) by auto
    moreover have "\<not> isRunning x" using Cons.prems(3) by (simp split: if_splits)
    moreover have "filter isRunning xs = []" using Cons.prems(3) by (simp split: if_splits)
    ultimately show ?thesis
      using Cons.IH r Cons.prems(1) by simp
  qed
qed

lemma filter_key_length:
  assumes "distinct (map f xs)" and "x \<in> set xs"
  shows "length (filter (\<lambda>y. f y \<noteq> f x) xs) + 1 = length xs"
  using assms
proof (induction xs)
  case Nil
  then show ?case by simp
next
  case (Cons y ys)
  show ?case
  proof (cases "y = x")
    case True
    have "f z \<noteq> f x" if "z \<in> set ys" for z
      using Cons.prems(1) True that by (force simp: image_iff)
    then have "filter (\<lambda>y. f y \<noteq> f x) ys = ys"
      by (simp add: filter_id_conv)
    with True show ?thesis by simp
  next
    case False
    then have "x \<in> set ys" using Cons.prems(2) by simp
    moreover from this have "f y \<noteq> f x" using Cons.prems(1) by auto
    ultimately show ?thesis using Cons.IH Cons.prems(1) by simp
  qed
qed

lemma running_singleton_mem:
  assumes "running st = [x]"
  shows "x \<in> set (luckyjet_round st) \<and> isRunning x"
proof -
  have "x \<in> set (filter isRunning (luckyjet_round st))"
    using assms by (simp add: running_def)
  then show ?thesis by simp
qed

lemma running_delete_round:
  assumes "running st = [x]" and "row_id x = i"
  shows "running (delete_round i st) = []"
proof -
  have "filter (\<lambda>r. row_id r \<noteq> i) (filter isRunning (luckyjet_round st)) = []"
    using assms unfolding running_def by simp
  then show ?thesis
    by (simp add: running_def delete_round_def filter_filter conj_commute)
qed

subsection \<open>The invariant for a start on fresh tables\<close>

lemma toFixed2_one: "toFixed2 1 = 1"
  using toFixed2_grid [of 100] by simp

lemma advance_grows: "s + 1 / 100 \<le> advance s"
  by (simp add: advance_def)

lemma tick_score_grows: "s + 1 / 200 \<le> toFixed2 (advance s)"
  using toFixed2_near [of "advance s"] advance_grows [of s] by linarith

lemma wf_store_empty: "wf_store empty_store"
  by (simp add: wf_store_def empty_store_def)

lemma wf_store_distinct:
  "wf_store st \<Longrightarrow> distinct (map row_id (luckyjet_round st))"
  by (simp add: wf_store_def strict_sorted_map_distinct)

lemma fresh_invariant_boot:
  assumes "fresh_invariant w" and "pc w = Idle"
  shows "fresh_invariant (boot w)"
proof -
  from assms have e: "db w = empty_store" "currentRound w = None" "emitted w = []"
    and s: "toFixed2 (liveScore w) = liveScore w" "1 \<le> liveScore w"
    by (simp_all add: fresh_invariant_def)
  have st: "setupTables w = w"
    by (rule setupTables_existing) (simp add: e empty_store_def)
  have wf: "wf_store (db (prefillRounds w))"
    by (rule prefillRounds_frame(1)) (simp add: e wf_store_empty)
  have "count_rounds (db w) = 0"
    by (simp add: e count_rounds_def empty_store_def)
  then have c: "count_rounds (db (prefillRounds w)) = 30"
    by (simp add: prefillRounds_count)
  have l: "luckyjet_round_log (db (prefillRounds w)) = []"
    by (simp add: prefillRounds_frame e empty_store_def)
  have "running (db w) = []"
    by (simp add: e empty_store_def running_def)
  then have r: "running (db (prefillRounds w)) = []"
    by (simp add: prefillRounds_frame)
  show ?thesis
    using wf c l r e s
    by (simp add: fresh_invariant_def between_rounds_def boot_fields st)
qed

lemma fresh_invariant_backlogCheck:
  assumes "fresh_invariant w" and "pc w = BacklogCheck"
  shows "fresh_invariant (backlogCheck w)"
proof -
  from assms have wf: "wf_store (db w)" and c: "count_rounds (db w) = 30"
    and b: "between_rounds w" and l: "length (luckyjet_round_log (db w)) \<le> 200"
    by (simp_all add: fresh_invariant_def)
  have "luckyjet_round (db w) \<noteq> []"
    using c by (auto simp: count_rounds_def)
  then obtain r rest where rows: "luckyjet_round (db w) = r # rest"
    by (cases "luckyjet_round (db w)") auto
  have sel: "select_earliest (db w) = [r]"
    using wf rows by (simp add: select_earliest_sorted wf_store_def)
  have run: "running (db w) = []"
    using b by (simp add: between_rounds_def)
  show ?thesis
    using wf c l run rows
    by (simp add: fresh_invariant_def backlogCheck_round [OF sel] toFixed2_one)
qed

lemma fresh_invariant_roundStart:
  assumes "fresh_invariant w" and "pc w = RoundStart"
  shows "fresh_invariant (roundStart w)"
proof -
  from assms obtain r where cur: "currentRound w = Some r"
    by (cases "currentRound w") (simp_all add: fresh_invariant_def)
  from assms cur have wf: "wf_store (db w)" and c: "count_rounds (db w) = 30"
    and run: "running (db w) = []" and mem: "r \<in> set (luckyjet_round (db w))"
    and l: "length (luckyjet_round_log (db w)) \<le> 200"
    and s: "liveScore w = 1" and nc: "\<not> isCrashed w"
    by (simp_all add: fresh_invariant_def)
  have run': "running (update_running (row_id r) (db w)) = [r\<lparr>isRunning := True\<rparr>]"
    using running_update_running [OF wf_store_distinct [OF wf] mem] run
    by (simp add: running_def update_running_def)
  have c': "count_rounds (update_running (row_id r) (db w)) = 30"
    using c by (simp add: count_rounds_def update_running_def)
  have l': "luckyjet_round_log (update_running (row_id r) (db w)) = luckyjet_round_log (db w)"
    by (simp add: update_running_def)
  show ?thesis
    using wf_store_update_running [OF wf] run' c' l s nc
    by (simp add: fresh_invariant_def playing_def roundStart_fields [OF cur] l' toFixed2_one)
qed

lemma fresh_invariant_tick:
  assumes "fresh_invariant w" and "pc w = LiveProgression"
  shows "fresh_invariant (tick w)"
proof -
  from assms have p: "playing w" and nc: "\<not> isCrashed w" and i: "interval_set w"
    and wf: "wf_store (db w)" and c: "count_rounds (db w) = 30"
    and l: "length (luckyjet_round_log (db w)) \<le> 200" and s: "1 \<le> liveScore w"
    by (simp_all add: fresh_invariant_def)
  from p obtain r where cur: "currentRound w = Some r"
    by (cases "currentRound w") (simp_all add: playing_def)
  have s': "1 \<le> toFixed2 (advance (liveScore w))"
    using tick_score_grows [of "liveScore w"] s by linarith
  show ?thesis
    using p nc i wf c l s' assms(2)
    by (simp add: fresh_invariant_def playing_def tick_fields [OF cur nc] cur toFixed2_idem)
qed

lemma settle_backlog:
  assumes "currentRound w = Some r"
  shows "luckyjet_round (db (settle w))
         = filter (\<lambda>y. row_id y \<noteq> row_id r) (luckyjet_round (db w))
           @ [\<lparr>row_id = round_auto_increment (db w), roundId = clock w (clock_reads w),
               crashPoint = fst (generateCrashPoint (gen w)), isRunning = False\<rparr>]"
  by (simp add: settle_fields(1) [OF assms] insert_round_def insert_log_def delete_round_def)

lemma settle_log:
  assumes "currentRound w = Some r" and "wf_store (db w)"
  shows "luckyjet_round_log (db (settle w))
         = drop (length (luckyjet_round_log (db w)) + 1 - 200)
             (luckyjet_round_log (db w)
              @ [\<lparr>log_id = log_auto_increment (db w), log_roundId = roundId r,
                  log_crashPoint = crashPoint r\<rparr>])"
proof -
  let ?st = "insert_log (roundId r) (crashPoint r) (delete_round (row_id r) (db w))"
  have "wf_store ?st"
    by (intro wf_store_insert_log wf_store_delete_round assms(2))
  then have "sorted_wrt (<) (map log_id (luckyjet_round_log ?st))"
    by (simp add: wf_store_def)
  from maintainLogLimit_sorted [OF this] show ?thesis
    by (simp add: settle_fields(1) [OF assms(1)] insert_log_def delete_round_def)
qed

lemma wf_store_settle:
  assumes "currentRound w = Some r" and "wf_store (db w)"
  shows "wf_store (db (settle w))"
  unfolding settle_fields(1) [OF assms(1)]
  by (intro wf_store_insert_round wf_store_maintainLogLimit wf_store_insert_log
      wf_store_delete_round assms(2))

lemma fresh_invariant_settle:
  assumes "fresh_invariant w" and "pc w = Settle"
  shows "fresh_invariant (settle w)"
proof -
  from assms have p: "playing w" and cr: "isCrashed w"
    and wf: "wf_store (db w)" and c: "count_rounds (db w) = 30"
    and s: "toFixed2 (liveScore w) = liveScore w" "1 \<le> liveScore w"
    by (simp_all add: fresh_invariant_def)
  from p obtain r where cur: "currentRound w = Some r"
    and run: "running (db w) = [r\<lparr>isRunning := True\<rparr>]"
    by (cases "currentRound w") (simp_all add: playing_def)
  let ?x = "r\<lparr>isRunning := True\<rparr>"
  let ?rows = "luckyjet_round (db w)"
  let ?kept = "filter (\<lambda>y. row_id y \<noteq> row_id r) ?rows"
  have mem: "?x \<in> set ?rows"
    using running_singleton_mem [OF run] by simp
  have len: "length ?kept + 1 = 30"
    using filter_key_length [OF wf_store_distinct [OF wf] mem] c
    by (simp add: count_rounds_def)
  have below: "row_id r < round_auto_increment (db w)"
    using wf mem by (auto simp: wf_store_def list_all_iff)
  have "filter isRunning ?kept = filter (\<lambda>y. row_id y \<noteq> row_id r) (filter isRunning ?rows)"
    by (simp add: filter_filter conj_commute)
  also have "\<dots> = []"
    using run by (simp add: running_def)
  finally have norun: "filter isRunning ?kept = []" .
  have count': "count_rounds (db (settle w)) = 30"
    using len by (simp add: count_rounds_def settle_backlog [OF cur])
  have run': "running (db (settle w)) = []"
    using norun by (simp add: running_def settle_backlog [OF cur])
  have gone: "row_id r \<notin> set (map row_id (luckyjet_round (db (settle w))))"
    using below by (auto simp: settle_backlog [OF cur])
  let ?e = "\<lparr>log_id = log_auto_increment (db w), log_roundId = roundId r,
             log_crashPoint = crashPoint r\<rparr>"
  let ?L = "luckyjet_round_log (db w)"
  have log: "luckyjet_round_log (db (settle w)) = drop (length ?L + 1 - 200) (?L @ [?e])"
    by (rule settle_log [OF cur wf])
  have loglen: "length (luckyjet_round_log (db (settle w))) \<le> 200"
    unfolding log by simp
  have lognonempty: "luckyjet_round_log (db (settle w)) \<noteq> []"
    unfolding log by simp
  have "last (drop (length ?L + 1 - 200) (?L @ [?e])) = last (?L @ [?e])"
    by (rule last_drop) simp
  then have loglast: "last (luckyjet_round_log (db (settle w))) = ?e"
    unfolding log by simp
  show ?thesis
    using wf_store_settle [OF cur wf] count' run' gone loglen lognonempty loglast cr s
    by (simp add: fresh_invariant_def between_rounds_def settle_fields(2-7) [OF cur])
qed

lemma fresh_invariant_pause:
  assumes "fresh_invariant w" and "pc w = InterRoundPause"
  shows "fresh_invariant (pause w)"
  using assms by (auto simp: fresh_invariant_def pause_def between_rounds_def split: option.splits)

lemma fresh_invariant_step: "fresh_invariant w \<Longrightarrow> fresh_invariant (step w)"
proof (cases "pc w")
  case Idle
  assume "fresh_invariant w"
  then show ?thesis using Idle by (simp add: step_def fresh_invariant_boot)
next
  case BacklogCheck
  assume "fresh_invariant w"
  then show ?thesis using BacklogCheck by (simp add: step_def fresh_invariant_backlogCheck)
next
  case RoundStart
  assume "fresh_invariant w"
  then show ?thesis using RoundStart by (simp add: step_def fresh_invariant_roundStart)
next
  case LiveProgression
  assume "fresh_invariant w"
  then show ?thesis using LiveProgression by (simp add: step_def fresh_invariant_tick)
next
  case Settle
  assume "fresh_invariant w"
  then show ?thesis using Settle by (simp add: step_def fresh_invariant_settle)
next
  case InterRoundPause
  assume "fresh_invariant w"
  then show ?thesis using InterRoundPause by (simp add: step_def fresh_invariant_pause)
next
  case Faulted
  assume "fresh_invariant w"
  then show ?thesis using Faulted by (simp add: step_def)
qed

lemma fresh_invariant_initial: "fresh_invariant (initial rnd clk empty_store)"
  using wf_store_empty
  by (simp add: fresh_invariant_def initial_def toFixed2_one) (simp add: empty_store_def)

text \<open>Every state the server reaches from fresh tables satisfies it.\<close>

lemma fresh_invariant_reachable: "fresh_invariant ((step ^^ n) (initial rnd clk empty_store))"
  by (induction n) (simp_all add: fresh_invariant_initial fresh_invariant_step)

subsection \<open>The backlog under refill and settle\<close>

lemma afterCalls_shift: "afterCalls k (snd (generateCrashPoint g)) = afterCalls (Suc k) g"
  by (induction k) simp_all

lemma prefill_body_inputs [simp]:
  "clock (prefill_body i w) = clock w"
  "clock_reads (prefill_body i w) = clock_reads w + 1"
  "round_auto_increment (db (prefill_body i w)) = round_auto_increment (db w) + 1"
  by (simp_all add: prefill_body_def Date_now_def Let_def insert_round_def split: prod.split)

lemma prefill_body_rows:
  "luckyjet_round (db (prefill_body i w)) = luckyjet_round (db w) @ [prefilled_row i w 0]"
  by (simp add: prefill_body_db insert_round_def prefilled_row_def)

lemma prefilled_row_shift:
  "prefilled_row (Suc i) (prefill_body i w) k = prefilled_row i w (Suc k)"
  by (simp add: prefilled_row_def afterCalls_shift)

text \<open>The loop appends one generated row per remaining slot, in order.\<close>

lemma prefill_loop_rows:
  "luckyjet_round (db (prefill_loop i remaining w))
   = luckyjet_round (db w) @ map (prefilled_row i w) [0..<nat (remaining - int i)]"
proof (induction i remaining w rule: prefill_loop.induct)
  case (1 i remaining w)
  show ?case
  proof (cases "int i < remaining")
    case True
    define m where "m = nat (remaining - int (i + 1))"
    have m: "nat (remaining - int i) = Suc m" "nat (remaining - int (i + 1)) = m"
      using True by (simp_all add: m_def)
    have "map (prefilled_row i w) [0..<Suc m]
          = prefilled_row i w 0 # map (\<lambda>k. prefilled_row i w (Suc k)) [0..<m]"
      by (simp only: map_upt_Suc)
    moreover have "luckyjet_round (db (prefill_loop (i + 1) remaining (prefill_body i w)))
          = (luckyjet_round (db w) @ [prefilled_row i w 0])
            @ map (\<lambda>k. prefilled_row i w (Suc k)) [0..<m]"
      using "1.IH" [OF True] m(2)
      by (simp add: prefill_body_rows prefilled_row_shift)
    ultimately show ?thesis
      using True m(1)
      by (subst prefill_loop.simps) (simp only: if_True append_assoc append_Cons append_Nil)
  next
    case False
    then show ?thesis by (subst prefill_loop.simps) simp
  qed
qed

lemma prefillRounds_rows:
  "luckyjet_round (db (prefillRounds w))
   = luckyjet_round (db w) @ map (prefilled_row 0 w) [0..<30 - count_rounds (db w)]"
proof -
  have "nat (30 - int (count_rounds (db w))) = 30 - count_rounds (db w)"
    by simp
  then show ?thesis
    by (simp only: prefillRounds_def Let_def prefill_loop_rows) simp
qed

lemma filter_key_length_le:
  assumes "distinct (map f xs)"
  shows "length xs \<le> length (filter (\<lambda>y. f y \<noteq> a) xs) + 1"
proof (cases "a \<in> f ` set xs")
  case True
  then obtain x where "x \<in> set xs" "f x = a" by auto
  with filter_key_length [OF assms, of x] show ?thesis by simp
next
  case False
  then have "filter (\<lambda>y. f y \<noteq> a) xs = xs"
    by (auto simp: filter_id_conv)
  then show ?thesis by simp
qed

lemma select_earliest_empty: "select_earliest st = [] \<longleftrightarrow> luckyjet_round st = []"
proof -
  have "length (sort_key row_id (luckyjet_round st)) = length (luckyjet_round st)"
    by simp
  then show ?thesis
    unfolding select_earliest_def by (metis One_nat_def length_0_conv take_eq_Nil zero_neq_one)
qed

lemma wf_store_backlogCheck: "wf_store (db w) \<Longrightarrow> wf_store (db (backlogCheck w))"
  by (cases "select_earliest (db w)")
    (simp_all add: backlogCheck_empty backlogCheck_round prefillRounds_frame(1))

lemma count_backlogCheck: "count_rounds (db w) \<le> count_rounds (db (backlogCheck w))"
  by (cases "select_earliest (db w)")
    (simp_all add: backlogCheck_empty backlogCheck_round prefillRounds_count)

lemma wf_store_settle_any: "wf_store (db w) \<Longrightarrow> wf_store (db (settle w))"
proof (cases "currentRound w")
  case None
  assume "wf_store (db w)"
  then show ?thesis using None by (simp add: settle_def)
next
  case (Some r)
  assume "wf_store (db w)"
  then show ?thesis by (rule wf_store_settle [OF Some])
qed

lemma count_settle:
  assumes "wf_store (db w)"
  shows "count_rounds (db w) \<le> count_rounds (db (settle w))"
proof (cases "currentRound w")
  case None
  then show ?thesis by (simp add: settle_def)
next
  case (Some r)
  show ?thesis
    using filter_key_length_le [OF wf_store_distinct [OF assms], of "row_id r"]
    by (simp add: count_rounds_def settle_backlog [OF Some])
qed

lemma run_backlog:
  "wf_store (db w) \<Longrightarrow>
   wf_store (db (run ts w)) \<and> count_rounds (db w) \<le> count_rounds (db (run ts w))"
proof (induction ts arbitrary: w)
  case Nil
  then show ?case by simp
next
  case (Cons t ts)
  have wf: "wf_store (db (fire t w))"
    using Cons.prems by (cases t) (simp_all add: wf_store_backlogCheck wf_store_settle_any)
  have "count_rounds (db w) \<le> count_rounds (db (fire t w))"
    using Cons.prems by (cases t) (simp_all add: count_backlogCheck count_settle)
  with Cons.IH [OF wf] show ?case by simp
qed

lemma refill_then_pull:
  assumes "wf_store (db w)" and "select_earliest (db w) = []"
  shows "luckyjet_round (db (backlogCheck w)) = map (prefilled_row 0 w) [0..<30]"
    and "pc (backlogCheck w) = pc w"
    and "select_earliest (db (backlogCheck w)) = [prefilled_row 0 w 0]"
proof -
  have empty: "luckyjet_round (db w) = []"
    using assms(2) by (simp add: select_earliest_empty)
  show rows: "luckyjet_round (db (backlogCheck w)) = map (prefilled_row 0 w) [0..<30]"
    by (simp add: backlogCheck_empty [OF assms(2)] prefillRounds_rows empty count_rounds_def)
  show "pc (backlogCheck w) = pc w"
    by (simp add: backlogCheck_empty [OF assms(2)] prefillRounds_frame)
  have "wf_store (db (backlogCheck w))"
    using assms(1) by (rule wf_store_backlogCheck)
  then have "select_earliest (db (backlogCheck w)) = take 1 (luckyjet_round (db (backlogCheck w)))"
    by (simp add: select_earliest_sorted wf_store_def)
  also have "\<dots> = [prefilled_row 0 w 0]"
    unfolding rows by (simp add: upt_rec [of 0 30])
  finally show "select_earliest (db (backlogCheck w)) = [prefilled_row 0 w 0]" .
qed

text \<open>
  C6. When the pull at the top of the loop finds the backlog empty, the same
  transition inserts 30 rows, one generated crash point each, so that the backlog holds
  exactly 30 entries, and the loop is back at the pull, which now returns the first
  of the new rows. No sequence of \<open>BacklogCheck\<close> and \<open>Settle\<close> transitions makes the
  backlog shorter than it was, so its size never drops below 0.
\<close>

theorem backlog_refill:
  assumes "wf_store (db w)"
  shows "(pc w = BacklogCheck \<and> select_earliest (db w) = [] \<longrightarrow>
            luckyjet_round (db (step w)) = map (prefilled_row 0 w) [0..<30]
            \<and> count_rounds (db (step w)) = 30
            \<and> pc (step w) = BacklogCheck
            \<and> currentRound (step (step w)) = Some (prefilled_row 0 w 0)
            \<and> pc (step (step w)) = RoundStart)
         \<and> count_rounds (db w) \<le> count_rounds (db (run ts w))
         \<and> 0 \<le> int (count_rounds (db (run ts w)))"
proof -
  have "luckyjet_round (db (step w)) = map (prefilled_row 0 w) [0..<30]
        \<and> count_rounds (db (step w)) = 30
        \<and> pc (step w) = BacklogCheck
        \<and> currentRound (step (step w)) = Some (prefilled_row 0 w 0)
        \<and> pc (step (step w)) = RoundStart"
    if at: "pc w = BacklogCheck" and none: "select_earliest (db w) = []"
  proof -
    have s1: "step w = backlogCheck w"
      using at by (simp add: step_def)
    note r = refill_then_pull [OF assms none]
    have pc1: "pc (step w) = BacklogCheck"
      using r(2) at by (simp add: s1)
    have "step (step w) = backlogCheck (step w)"
      using pc1 by (simp add: step_def [of "step w"])
    then have s2: "step (step w) = backlogCheck (backlogCheck w)"
      by (simp only: s1)
    have count: "count_rounds (db (step w)) = 30"
      by (simp add: s1 r(1) count_rounds_def)
    show ?thesis
      using r(1) count pc1
      by (simp add: s2 backlogCheck_round [OF r(3)]) (simp add: s1)
  qed
  then show ?thesis
    using run_backlog [OF assms, of ts] by simp
qed

theorem backlog_refill_witness:
  "wf_store (db ((initial (mocked []) (wall_clock 1000) empty_store)\<lparr>pc := BacklogCheck\<rparr>))
   \<and> select_earliest (db ((initial (mocked []) (wall_clock 1000) empty_store)
        \<lparr>pc := BacklogCheck\<rparr>)) = []
   \<and> count_rounds (db (step ((initial (mocked []) (wall_clock 1000) empty_store)
        \<lparr>pc := BacklogCheck\<rparr>))) = 30
   \<and> pc (step (step ((initial (mocked []) (wall_clock 1000) empty_store)
        \<lparr>pc := BacklogCheck\<rparr>))) = RoundStart"
proof -
  let ?w = "(initial (mocked []) (wall_clock 1000) empty_store)\<lparr>pc := BacklogCheck\<rparr>"
  have wf: "wf_store (db ?w)"
    by (simp add: initial_def wf_store_empty)
  have none: "select_earliest (db ?w) = []"
    by (simp add: initial_def select_earliest_def empty_store_def)
  have at: "pc ?w = BacklogCheck"
    by simp
  from backlog_refill [OF wf, of "[]"] at none wf show ?thesis
    by blast
qed

subsection \<open>The invariant for a start on any well-formed tables\<close>

lemma select_earliest_mem:
  assumes "select_earliest st = r # rest"
  shows "r \<in> set (luckyjet_round st)"
proof -
  have "r \<in> set (take 1 (sort_key row_id (luckyjet_round st)))"
    using assms by (simp add: select_earliest_def)
  then have "r \<in> set (sort_key row_id (luckyjet_round st))"
    by (rule in_set_takeD)
  then show ?thesis by simp
qed

lemma update_running_mem:
  assumes "r \<in> set (luckyjet_round st)"
  shows "r\<lparr>isRunning := True\<rparr> \<in> set (luckyjet_round (update_running (row_id r) st))"
proof -
  have "(\<lambda>x. if row_id x = row_id r then x\<lparr>isRunning := True\<rparr> else x) r
        \<in> (\<lambda>x. if row_id x = row_id r then x\<lparr>isRunning := True\<rparr> else x) ` set (luckyjet_round st)"
    using assms by (rule imageI)
  then show ?thesis
    by (simp add: update_running_def)
qed

lemma loop_invariant_boot:
  assumes "loop_invariant w" and "pc w = Idle"
  shows "loop_invariant (boot w)"
proof -
  from assms have wf: "wf_store (db w)" and cur: "currentRound w = None"
    and em: "emitted w = []"
    and s: "toFixed2 (liveScore w) = liveScore w" "1 \<le> liveScore w"
    by (simp_all add: loop_invariant_def split: option.splits)
  have "wf_store (db (setupTables w))"
    using wf by (simp add: wf_store_create_tables)
  then have wf': "wf_store (db (prefillRounds (setupTables w)))"
    by (rule prefillRounds_frame(1))
  have c: "30 \<le> count_rounds (db (prefillRounds (setupTables w)))"
    by (simp add: prefillRounds_count)
  have t: "tables_created (db (prefillRounds (setupTables w)))"
    by (simp add: prefillRounds_frame)
  show ?thesis
    using wf' c t cur em s
    by (simp add: loop_invariant_def boot_fields)
qed

lemma loop_invariant_backlogCheck:
  assumes "loop_invariant w" and "pc w = BacklogCheck"
  shows "loop_invariant (backlogCheck w)"
proof -
  from assms have wf: "wf_store (db w)" and c: "30 \<le> count_rounds (db w)"
    and t: "tables_created (db w)"
    by (simp_all add: loop_invariant_def)
  have "luckyjet_round (db w) \<noteq> []"
    using c by (auto simp: count_rounds_def)
  then obtain r rest where sel: "select_earliest (db w) = r # rest"
    using select_earliest_empty [of "db w"] by (cases "select_earliest (db w)") simp_all
  show ?thesis
    using wf c t select_earliest_mem [OF sel]
    by (simp add: loop_invariant_def backlogCheck_round [OF sel] toFixed2_one)
qed

lemma loop_invariant_roundStart:
  assumes "loop_invariant w" and "pc w = RoundStart"
  shows "loop_invariant (roundStart w)"
proof -
  from assms obtain r where cur: "currentRound w = Some r"
    by (cases "currentRound w") (simp_all add: loop_invariant_def)
  from assms cur have wf: "wf_store (db w)" and c: "30 \<le> count_rounds (db w)"
    and mem: "r \<in> set (luckyjet_round (db w))"
    and s: "liveScore w = 1" and nc: "\<not> isCrashed w"
    and t: "tables_created (db w)"
    by (simp_all add: loop_invariant_def)
  have c': "30 \<le> count_rounds (update_running (row_id r) (db w))"
    using c by (simp add: count_rounds_def update_running_def)
  show ?thesis
    using wf_store_update_running [OF wf] update_running_mem [OF mem] c' s nc t
    by (simp add: loop_invariant_def roundStart_fields [OF cur] toFixed2_one)
qed

lemma loop_invariant_tick:
  assumes "loop_invariant w" and "pc w = LiveProgression"
  shows "loop_invariant (tick w)"
proof -
  from assms obtain r where cur: "currentRound w = Some r"
    by (cases "currentRound w") (simp_all add: loop_invariant_def)
  from assms cur have nc: "\<not> isCrashed w" and i: "interval_set w"
    and wf: "wf_store (db w)" and c: "30 \<le> count_rounds (db w)"
    and mem: "r\<lparr>isRunning := True\<rparr> \<in> set (luckyjet_round (db w))"
    and s: "1 \<le> liveScore w"
    and t: "tables_created (db w)"
    by (simp_all add: loop_invariant_def)
  have s': "1 \<le> toFixed2 (advance (liveScore w))"
    using tick_score_grows [of "liveScore w"] s by linarith
  show ?thesis
    using nc i wf c mem s' assms(2) t
    by (simp add: loop_invariant_def tick_fields [OF cur nc] toFixed2_idem)
qed

lemma loop_invariant_settle:
  assumes "loop_invariant w" and "pc w = Settle"
  shows "loop_invariant (settle w)"
proof -
  from assms obtain r where cur: "currentRound w = Some r"
    by (cases "currentRound w") (simp_all add: loop_invariant_def)
  from assms cur have cr: "isCrashed w"
    and wf: "wf_store (db w)" and c: "30 \<le> count_rounds (db w)"
    and s: "toFixed2 (liveScore w) = liveScore w" "1 \<le> liveScore w"
    and t: "tables_created (db w)"
    by (simp_all add: loop_invariant_def)
  have c': "30 \<le> count_rounds (db (settle w))"
    using count_settle [OF wf] c by linarith
  have t': "tables_created (db (settle w))"
    using t by (simp add: settle_fields(1) [OF cur])
  show ?thesis
    using wf_store_settle [OF cur wf] c' cr s t'
    by (simp add: loop_invariant_def settle_fields(2-7) [OF cur])
qed

lemma loop_invariant_pause:
  assumes "loop_invariant w" and "pc w = InterRoundPause"
  shows "loop_invariant (pause w)"
  using assms by (auto simp: loop_invariant_def pause_def split: option.splits)

lemma loop_invariant_step: "loop_invariant w \<Longrightarrow> loop_invariant (step w)"
proof (cases "pc w")
  case Idle
  assume "loop_invariant w"
  then show ?thesis using Idle by (simp add: step_def loop_invariant_boot)
next
  case BacklogCheck
  assume "loop_invariant w"
  then show ?thesis using BacklogCheck by (simp add: step_def loop_invariant_backlogCheck)
next
  case RoundStart
  assume "loop_invariant w"
  then show ?thesis using RoundStart by (simp add: step_def loop_invariant_roundStart)
next
  case LiveProgression
  assume "loop_invariant w"
  then show ?thesis using LiveProgression by (simp add: step_def loop_invariant_tick)
next
  case Settle
  assume "loop_invariant w"
  then show ?thesis using Settle by (simp add: step_def loop_invariant_settle)
next
  case InterRoundPause
  assume "loop_invariant w"
  then show ?thesis using InterRoundPause by (simp add: step_def loop_invariant_pause)
next
  case Faulted
  assume "loop_invariant w"
  then show ?thesis using Faulted by (simp add: step_def)
qed

lemma loop_invariant_initial: "wf_store st \<Longrightarrow> loop_invariant (initial rnd clk st)"
  by (simp add: loop_invariant_def initial_def toFixed2_one)

text \<open>Every state the server reaches from well-formed tables satisfies the
  invariant.\<close>

lemma loop_invariant_reachable:
  "wf_store st \<Longrightarrow> loop_invariant ((step ^^ n) (initial rnd clk st))"
  by (induction n) (simp_all add: loop_invariant_initial loop_invariant_step)

lemma in_progress_reachable:
  assumes "loop_invariant w" and "pc w = LiveProgression"
  shows "\<exists>r. in_progress r w \<and> r\<lparr>isRunning := True\<rparr> \<in> set (luckyjet_round (db w))"
  using assms
  by (cases "currentRound w") (simp_all add: loop_invariant_def in_progress_def)


lemma pull_succeeds:
  assumes "loop_invariant w" and "pc w = BacklogCheck"
  shows "pc (step w) = RoundStart"
proof -
  have "30 \<le> count_rounds (db w)"
    using assms by (simp add: loop_invariant_def)
  then have "luckyjet_round (db w) \<noteq> []"
    by (auto simp: count_rounds_def)
  then obtain r rest where "select_earliest (db w) = r # rest"
    using select_earliest_empty [of "db w"] by (cases "select_earliest (db w)") simp_all
  from backlogCheck_round [OF this] show ?thesis
    using assms(2) by (simp add: step_def)
qed

lemma loop_invariant_funpow: "loop_invariant w \<Longrightarrow> loop_invariant ((step ^^ k) w)"
  by (induction k) (simp_all add: loop_invariant_step)

subsection \<open>Settle\<close>

lemma filter_key_remove1:
  assumes "distinct (map f xs)" and "x \<in> set xs"
  shows "filter (\<lambda>y. f y \<noteq> f x) xs = remove1 x xs"
  using assms
proof (induction xs)
  case Nil
  then show ?case by simp
next
  case (Cons y ys)
  show ?case
  proof (cases "y = x")
    case True
    have "f z \<noteq> f x" if "z \<in> set ys" for z
      using Cons.prems(1) True that by (force simp: image_iff)
    then have "filter (\<lambda>y. f y \<noteq> f x) ys = ys"
      by (simp add: filter_id_conv)
    with True show ?thesis by simp
  next
    case False
    then have "x \<in> set ys" using Cons.prems(2) by simp
    moreover from this have "f y \<noteq> f x" using Cons.prems(1) by (force simp: image_iff)
    ultimately show ?thesis using Cons.IH Cons.prems(1) False by simp
  qed
qed

text \<open>What \<open>Settle\<close> does when the flagged row of the current round is in a
  well-formed backlog.\<close>

lemma settle_playing:
  assumes "wf_store (db w)" and "currentRound w = Some r"
    and "r\<lparr>isRunning := True\<rparr> \<in> set (luckyjet_round (db w))"
  shows "luckyjet_round (db (settle w))
         = remove1 (r\<lparr>isRunning := True\<rparr>) (luckyjet_round (db w))
           @ [\<lparr>row_id = round_auto_increment (db w), roundId = clock w (clock_reads w),
               crashPoint = fst (generateCrashPoint (gen w)), isRunning = False\<rparr>]"
    and "count_rounds (db (settle w)) = count_rounds (db w)"
proof -
  let ?x = "r\<lparr>isRunning := True\<rparr>"
  have d: "distinct (map row_id (luckyjet_round (db w)))"
    by (rule wf_store_distinct [OF assms(1)])
  have "filter (\<lambda>y. row_id y \<noteq> row_id r) (luckyjet_round (db w))
        = remove1 ?x (luckyjet_round (db w))"
    using filter_key_remove1 [OF d assms(3)] by simp
  then show "luckyjet_round (db (settle w))
         = remove1 ?x (luckyjet_round (db w))
           @ [\<lparr>row_id = round_auto_increment (db w), roundId = clock w (clock_reads w),
               crashPoint = fst (generateCrashPoint (gen w)), isRunning = False\<rparr>]"
    by (simp add: settle_backlog [OF assms(2)])
  show "count_rounds (db (settle w)) = count_rounds (db w)"
    using filter_key_length [OF d assms(3)]
    by (simp add: count_rounds_def settle_backlog [OF assms(2)])
qed

text \<open>
  C7. In every state the server reaches from well-formed tables in which the loop is
  about to settle a crashed round, the step removes that round's row (flagged by
  \<open>RoundStart\<close>) from the backlog and appends one row with a newly generated crash
  point, so the backlog keeps its size; it appends one log entry with the round's
  \<open>roundId\<close> and \<open>crashPoint\<close> and keeps the 200 entries inserted last.
\<close>

theorem settle_round:
  assumes "wf_store st" and "w = (step ^^ n) (initial rnd clk st)" and "pc w = Settle"
  shows "\<exists>r. currentRound w = Some r \<and> isCrashed w
           \<and> r\<lparr>isRunning := True\<rparr> \<in> set (luckyjet_round (db w))
           \<and> luckyjet_round (db (step w))
               = remove1 (r\<lparr>isRunning := True\<rparr>) (luckyjet_round (db w))
                 @ [\<lparr>row_id = round_auto_increment (db w), roundId = clock w (clock_reads w),
                     crashPoint = fst (generateCrashPoint (gen w)), isRunning = False\<rparr>]
           \<and> count_rounds (db (step w)) = count_rounds (db w)
           \<and> luckyjet_round_log (db (step w))
               = drop (length (luckyjet_round_log (db w)) + 1 - 200)
                   (luckyjet_round_log (db w)
                    @ [\<lparr>log_id = log_auto_increment (db w), log_roundId = roundId r,
                        log_crashPoint = crashPoint r\<rparr>])
           \<and> length (luckyjet_round_log (db (step w)))
               = min 200 (length (luckyjet_round_log (db w)) + 1)
           \<and> pc (step w) = InterRoundPause"
proof -
  have inv: "loop_invariant w"
    unfolding assms(2) by (rule loop_invariant_reachable [OF assms(1)])
  from inv assms(3) obtain r where cur: "currentRound w = Some r"
    by (cases "currentRound w") (simp_all add: loop_invariant_def)
  from inv assms(3) cur have cr: "isCrashed w" and wf: "wf_store (db w)"
    and mem: "r\<lparr>isRunning := True\<rparr> \<in> set (luckyjet_round (db w))"
    by (simp_all add: loop_invariant_def)
  have s: "step w = settle w"
    using assms(3) by (simp add: step_def)
  have log: "luckyjet_round_log (db (settle w))
             = drop (length (luckyjet_round_log (db w)) + 1 - 200)
                 (luckyjet_round_log (db w)
                  @ [\<lparr>log_id = log_auto_increment (db w), log_roundId = roundId r,
                      log_crashPoint = crashPoint r\<rparr>])"
    by (rule settle_log [OF cur wf])
  have len: "length (luckyjet_round_log (db (settle w)))
             = min 200 (length (luckyjet_round_log (db w)) + 1)"
    unfolding log by simp
  show ?thesis
    unfolding s
    using cur cr mem settle_playing [OF wf cur mem] log len settle_fields(7) [OF cur]
    by blast
qed

subsection \<open>The first round after a start on fresh tables\<close>

lemma first_round_start:
  fixes rnd clk
  defines "w0 \<equiv> initial rnd clk empty_store"
  defines "r \<equiv> prefilled_row 0 w0 0"
  shows "pc (step w0) = BacklogCheck"
    and "pc (step (step w0)) = RoundStart"
    and "pc (step (step (step w0))) = LiveProgression"
    and "currentRound (step (step (step w0))) = Some r"
    and "liveScore (step (step (step w0))) = 1"
    and "\<not> isCrashed (step (step (step w0)))"
    and "interval_set (step (step (step w0)))"
    and "emitted (step (step (step w0))) = [Emit_roundStart (roundId r) (crashPoint r) []]"
proof -
  have s1: "step w0 = boot w0"
    by (simp add: step_def w0_def initial_def)
  show pc1: "pc (step w0) = BacklogCheck"
    by (simp add: s1 boot_fields)
  have wf0: "wf_store (db w0)"
    by (simp add: w0_def initial_def wf_store_empty)
  have none0: "select_earliest (db w0) = []"
    by (simp add: w0_def initial_def select_earliest_def empty_store_def)
  have st0: "setupTables w0 = w0"
    by (rule setupTables_existing) (simp add: w0_def initial_def empty_store_def)
  have db1: "db (step w0) = db (backlogCheck w0)"
    by (simp add: s1 boot_fields st0 backlogCheck_empty [OF none0])
  have sel: "select_earliest (db (step w0)) = [r]"
    unfolding db1 r_def by (rule refill_then_pull(3) [OF wf0 none0])
  have s2: "step (step w0) = backlogCheck (step w0)"
    using pc1 by (simp add: step_def [of "step w0"])
  note b = backlogCheck_round [OF sel]
  show pc2: "pc (step (step w0)) = RoundStart"
    by (simp add: s2 b)
  have cur2: "currentRound (step (step w0)) = Some r"
    by (simp add: s2 b)
  have s3: "step (step (step w0)) = roundStart (step (step w0))"
    using pc2 by (simp add: step_def [of "step (step w0)"])
  note f = roundStart_fields [OF cur2]
  show "pc (step (step (step w0))) = LiveProgression"
    by (simp only: s3 f)
  show "currentRound (step (step (step w0))) = Some r"
    by (simp only: s3 f)
  show "liveScore (step (step (step w0))) = 1"
    by (simp add: s3 f) (simp add: s2 b)
  show "\<not> isCrashed (step (step (step w0)))"
    by (simp add: s3 f) (simp add: s2 b)
  show "interval_set (step (step (step w0)))"
    by (simp only: s3 f)
  have "luckyjet_round_log (db (boot w0)) = luckyjet_round_log (db w0)"
    "emitted (boot w0) = emitted w0"
    by (simp_all add: boot_fields st0 prefillRounds_frame)
  then have "luckyjet_round_log (db (step w0)) = []" "emitted (step w0) = []"
    unfolding s1 by (simp_all add: w0_def initial_def empty_store_def)
  then have log: "luckyjet_round_log (db (step (step w0))) = []"
    and em: "emitted (step (step w0)) = []"
    by (simp_all add: s2 b)
  show "emitted (step (step (step w0))) = [Emit_roundStart (roundId r) (crashPoint r) []]"
    using log em
    by (simp add: s3 f getLast20Rounds_def newest_logs_def update_running_def)
qed

lemma advance_one: "toFixed2 (advance 1) = 101 / 100"
  using toFixed2_grid [of 101] by (simp add: advance_def)

lemma first_round_crash:
  fixes rnd clk
  defines "w0 \<equiv> initial rnd clk empty_store"
  defines "r \<equiv> prefilled_row 0 w0 0"
  assumes "crashPoint r \<le> 101 / 100"
  shows "pc (step (step (step (step w0)))) = Settle"
    and "currentRound (step (step (step (step w0)))) = Some r"
    and "isCrashed (step (step (step (step w0))))"
    and "liveScore (step (step (step (step w0)))) = 101 / 100"
    and "emitted (step (step (step (step w0))))
         = [Emit_roundStart (roundId r) (crashPoint r) [], Emit_liveScore (101 / 100),
            Emit_crashed (crashPoint r)]"
    and "pc (step (step (step (step (step w0))))) = InterRoundPause"
    and "currentRound (step (step (step (step (step w0))))) = Some r"
    and "isCrashed (step (step (step (step (step w0)))))"
    and "liveScore (step (step (step (step (step w0))))) = 101 / 100"
proof -
  let ?w3 = "step (step (step w0))"
  note s = first_round_start [of rnd clk, folded w0_def, folded r_def]
  have s4: "step ?w3 = tick ?w3"
    using s(3,7) by (simp add: step_def [of ?w3])
  note t = tick_fields [OF s(4) s(6)]
  have score: "liveScore (tick ?w3) = 101 / 100"
    by (simp add: t(3) s(5) advance_one)
  have crash: "crashPoint r \<le> liveScore (tick ?w3)"
    using assms(3) by (simp add: score)
  show pc4: "pc (step ?w3) = Settle"
    using crash by (simp add: s4 t(7))
  show cur4: "currentRound (step ?w3) = Some r"
    by (simp add: s4 t(2))
  show cr4: "isCrashed (step ?w3)"
    using crash by (simp add: s4 t(4))
  show ls4: "liveScore (step ?w3) = 101 / 100"
    by (simp add: s4 score)
  show "emitted (step ?w3)
        = [Emit_roundStart (roundId r) (crashPoint r) [], Emit_liveScore (101 / 100),
           Emit_crashed (crashPoint r)]"
    using crash by (simp add: s4 t(5) s(8)) (simp add: score)
  have s5: "step (step ?w3) = settle (step ?w3)"
    using pc4 by (simp add: step_def [of "step ?w3"])
  note f = settle_fields [OF cur4]
  show "pc (step (step ?w3)) = InterRoundPause"
    by (simp only: s5 f)
  show "currentRound (step (step ?w3)) = Some r"
    by (simp only: s5 f)
  show "isCrashed (step (step ?w3))"
    using cr4 by (simp only: s5 f)
  show "liveScore (step (step ?w3)) = 101 / 100"
    using ls4 by (simp only: s5 f)
qed

text \<open>A concrete run: every draw is \<open>0\<close>, the clock starts at \<open>1000\<close>. The first
  generated round has crash point \<open>1\<close>, so its first tick crashes it.\<close>

lemma example_first_row:
  "prefilled_row 0 (initial (mocked []) (wall_clock 1000) empty_store) 0
   = \<lparr>row_id = 1, roundId = 1000, crashPoint = 1, isRunning = False\<rparr>"
  by (simp add: prefilled_row_def initial_def empty_store_def wall_clock_def
      generateCrashPoint_def weightedBand_def Math_random_def mocked_def toFixed2_one)

lemma funpow_4: "(f ^^ 4) x = f (f (f (f x)))"
  by (simp add: numeral_eq_Suc)

lemma funpow_3: "(f ^^ 3) x = f (f (f x))"
  by (simp add: numeral_eq_Suc)

lemma funpow_5: "(f ^^ 5) x = f (f (f (f (f x))))"
  by (simp add: numeral_eq_Suc)

theorem settle_round_witness:
  "pc ((step ^^ 4) (initial (mocked []) (wall_clock 1000) empty_store)) = Settle
   \<and> count_rounds (db (step ((step ^^ 4) (initial (mocked []) (wall_clock 1000) empty_store))))
      = count_rounds (db ((step ^^ 4) (initial (mocked []) (wall_clock 1000) empty_store)))
   \<and> pc (step ((step ^^ 4) (initial (mocked []) (wall_clock 1000) empty_store)))
      = InterRoundPause"
proof -
  let ?w = "(step ^^ 4) (initial (mocked []) (wall_clock 1000) empty_store)"
  have p: "pc ?w = Settle"
    unfolding funpow_4 by (rule first_round_crash(1)) (simp add: example_first_row)
  from settle_round [OF wf_store_empty refl p] p show ?thesis
    by blast
qed

subsection \<open>The running flag\<close>

lemma running_by_phase:
  assumes "fresh_invariant w"
  shows "length (running (db w)) \<le> 1"
    and "pc w = LiveProgression \<Longrightarrow>
         \<exists>r. currentRound w = Some r \<and> running (db w) = [r\<lparr>isRunning := True\<rparr>]"
    and "pc w = BacklogCheck \<or> pc w = InterRoundPause \<Longrightarrow> running (db w) = []"
proof -
  show "length (running (db w)) \<le> 1"
    using assms
    by (cases "pc w"; cases "currentRound w")
      (simp_all add: fresh_invariant_def between_rounds_def playing_def running_def empty_store_def)
  show "\<exists>r. currentRound w = Some r \<and> running (db w) = [r\<lparr>isRunning := True\<rparr>]"
    if "pc w = LiveProgression"
    using assms that by (cases "currentRound w") (simp_all add: fresh_invariant_def playing_def)
  show "running (db w) = []" if "pc w = BacklogCheck \<or> pc w = InterRoundPause"
    using assms that by (auto simp: fresh_invariant_def between_rounds_def)
qed

lemma running_prefill_loop: "running (db (prefill_loop i remaining w)) = running (db w)"
  by (rule prefill_loop_preserves) (simp_all add: prefill_body_db)

text \<open>
  C8. In every state the server reaches from empty tables at most one backlog row
  has \<open>isRunning = true\<close>: while the live progression runs it is exactly one, the row of
  the round in \<open>currentRound\<close>, and at \<open>BacklogCheck\<close> and during the pause between
  rounds it is none. The same holds between the statements of one transition: the
  \<open>DELETE\<close> of \<open>Settle\<close> removes the flagged row, after which nothing is flagged, and
  the rows that \<open>prefillRounds\<close> has inserted after any number of passes of its loop
  are not flagged.
\<close>

theorem one_round_running:
  fixes rnd clk n
  defines "w \<equiv> (step ^^ n) (initial rnd clk empty_store)"
  shows "length (running (db w)) \<le> 1
         \<and> (pc w = LiveProgression \<longrightarrow>
              (\<exists>r. currentRound w = Some r \<and> running (db w) = [r\<lparr>isRunning := True\<rparr>]))
         \<and> (pc w = BacklogCheck \<or> pc w = InterRoundPause \<longrightarrow> running (db w) = [])
         \<and> (pc w = Settle \<longrightarrow>
              (\<exists>r. currentRound w = Some r \<and> running (db w) = [r\<lparr>isRunning := True\<rparr>]
                 \<and> running (delete_round (row_id r) (db w)) = []))
         \<and> running (db (prefill_loop 0 (int k) w)) = running (db w)"
proof -
  have inv: "fresh_invariant w"
    unfolding w_def by (rule fresh_invariant_reachable)
  have "\<exists>r. currentRound w = Some r \<and> running (db w) = [r\<lparr>isRunning := True\<rparr>]
          \<and> running (delete_round (row_id r) (db w)) = []"
    if "pc w = Settle"
  proof -
    from inv that have "playing w"
      by (simp add: fresh_invariant_def)
    then obtain r where r: "currentRound w = Some r" "running (db w) = [r\<lparr>isRunning := True\<rparr>]"
      by (cases "currentRound w") (simp_all add: playing_def)
    have "running (delete_round (row_id r) (db w)) = []"
      by (rule running_delete_round [OF r(2)]) simp
    with r show ?thesis by blast
  qed
  with running_by_phase [OF inv] running_prefill_loop [of 0 "int k" w] show ?thesis
    by blast
qed

theorem one_round_running_witness:
  "pc ((step ^^ 1) (initial (mocked []) (wall_clock 1000) empty_store)) = BacklogCheck
   \<and> running (db ((step ^^ 1) (initial (mocked []) (wall_clock 1000) empty_store))) = []
   \<and> pc ((step ^^ 3) (initial (mocked []) (wall_clock 1000) empty_store)) = LiveProgression
   \<and> running (db ((step ^^ 3) (initial (mocked []) (wall_clock 1000) empty_store)))
      = [\<lparr>row_id = 1, roundId = 1000, crashPoint = 1, isRunning = True\<rparr>]
   \<and> pc ((step ^^ 5) (initial (mocked []) (wall_clock 1000) empty_store)) = InterRoundPause
   \<and> running (db ((step ^^ 5) (initial (mocked []) (wall_clock 1000) empty_store))) = []"
proof -
  let ?w0 = "initial (mocked []) (wall_clock 1000) empty_store"
  have c: "crashPoint (prefilled_row 0 ?w0 0) \<le> 101 / 100"
    by (simp add: example_first_row)
  have p1: "pc ((step ^^ 1) ?w0) = BacklogCheck"
    using first_round_start(1) [of "mocked []" "wall_clock 1000"] by simp
  have p3: "pc ((step ^^ 3) ?w0) = LiveProgression"
    unfolding funpow_3 by (rule first_round_start(3))
  have c3: "currentRound ((step ^^ 3) ?w0)
            = Some \<lparr>row_id = 1, roundId = 1000, crashPoint = 1, isRunning = False\<rparr>"
    unfolding funpow_3 by (simp add: first_round_start(4) example_first_row)
  have p5: "pc ((step ^^ 5) ?w0) = InterRoundPause"
    unfolding funpow_5 by (rule first_round_crash(6) [OF c])
  from one_round_running [of 1 "mocked []" "wall_clock 1000"] p1
  have r1: "running (db ((step ^^ 1) ?w0)) = []"
    by blast
  from one_round_running [of 3 "mocked []" "wall_clock 1000"] p3 c3
  have r3: "running (db ((step ^^ 3) ?w0))
            = [\<lparr>row_id = 1, roundId = 1000, crashPoint = 1, isRunning = True\<rparr>]"
    by auto
  from one_round_running [of 5 "mocked []" "wall_clock 1000"] p5
  have r5: "running (db ((step ^^ 5) ?w0)) = []"
    by blast
  from p1 p3 p5 r1 r3 r5 show ?thesis
    by blast
qed

subsection \<open>The snapshot for a new connection\<close>

lemma getLast20Rounds_wf:
  assumes "wf_store st"
  shows "getLast20Rounds st = take 20 (rev (luckyjet_round_log st))"
    and "sorted_wrt (>) (map log_id (getLast20Rounds st))"
proof -
  have s: "sorted_wrt (<) (map log_id (luckyjet_round_log st))"
    using assms by (simp add: wf_store_def)
  show eq: "getLast20Rounds st = take 20 (rev (luckyjet_round_log st))"
    by (simp add: getLast20Rounds_def newest_logs_sorted [OF s])
  have "sorted_wrt (>) (rev (map log_id (luckyjet_round_log st)))"
    using s by (simp add: sorted_wrt_rev)
  then have "sorted_wrt (>) (take 20 (rev (map log_id (luckyjet_round_log st))))"
    by (rule sorted_wrt_take)
  then show "sorted_wrt (>) (map log_id (getLast20Rounds st))"
    by (simp add: eq take_map rev_map)
qed

lemma currentRound_by_phase:
  assumes "loop_invariant w"
  shows "currentRound w = None \<Longrightarrow> (pc w = Idle \<or> pc w = BacklogCheck) \<and> emitted w = []"
    and "pc w = RoundStart \<or> pc w = LiveProgression \<or> pc w = Settle \<or> pc w = InterRoundPause
         \<Longrightarrow> currentRound w \<noteq> None"
proof -
  show "(pc w = Idle \<or> pc w = BacklogCheck) \<and> emitted w = []" if "currentRound w = None"
    using assms that
    by (cases "pc w") (simp_all add: loop_invariant_def)
  show "currentRound w \<noteq> None"
    if "pc w = RoundStart \<or> pc w = LiveProgression \<or> pc w = Settle \<or> pc w = InterRoundPause"
    using assms that by (auto simp: loop_invariant_def split: option.splits)
qed

lemma funpow_reachable:
  "(step ^^ k) ((step ^^ n) w) = (step ^^ (k + n)) w"
  by (simp add: funpow_add)

text \<open>The tables are never dropped, and they exist once the first transition of the
  server, the callback of \<open>server.listen\<close>, has run.\<close>

lemma pc_step_not_idle:
  assumes "pc w \<noteq> Idle"
  shows "pc (step w) \<noteq> Idle"
proof (cases "pc w")
  case Idle
  with assms show ?thesis
    by simp
next
  case BacklogCheck
  then show ?thesis
    by (simp add: step_def backlogCheck_def prefillRounds_frame split: list.splits)
next
  case RoundStart
  then show ?thesis
    by (simp add: step_def roundStart_def Let_def split: option.splits)
next
  case LiveProgression
  then show ?thesis
    by (simp add: step_def tick_def Let_def split: option.splits)
next
  case Settle
  then show ?thesis
    by (simp add: step_def settle_def Let_def split: option.splits prod.splits)
next
  case InterRoundPause
  then show ?thesis
    by (simp add: step_def pause_def)
next
  case Faulted
  then show ?thesis
    by (simp add: step_def)
qed

lemma tables_created_step:
  assumes "loop_invariant w"
  shows "tables_created (db (step w))"
proof (cases "pc w = Idle")
  case True
  then show ?thesis
    by (simp add: step_def boot_fields(8))
next
  case False
  have "loop_invariant (step w)"
    using assms by (rule loop_invariant_step)
  then have "pc (step w) = Idle \<or> tables_created (db (step w))"
    by (simp add: loop_invariant_def)
  with pc_step_not_idle [OF False] show ?thesis
    by simp
qed

lemma tables_created_reachable:
  assumes "wf_store st"
  shows "tables_created (db ((step ^^ n) (initial rnd clk st))) \<longleftrightarrow> tables_created st \<or> 0 < n"
proof (cases n)
  case 0
  then show ?thesis
    by (simp add: initial_def)
next
  case (Suc m)
  have "loop_invariant ((step ^^ m) (initial rnd clk st))"
    by (rule loop_invariant_reachable [OF assms])
  from tables_created_step [OF this] show ?thesis
    by (simp add: Suc)
qed

text \<open>
  C9 (amended). The server is started on well-formed tables, or on a fresh database.
  The history query of line 143 runs in a state \<open>w\<close> the server has reached, and the
  handler resumes in a state \<open>w'\<close> reached from \<open>w\<close> by any number of further
  transitions. If the log table exists in \<open>w\<close>, one \<open>initData\<close> is sent:
  \<open>previousRounds\<close> are the at most 20 newest log entries of \<open>w\<close>, newest first,
  \<open>liveScore\<close> is the live score of \<open>w'\<close>, and \<open>roundId\<close> and \<open>crashPoint\<close> are those of
  \<open>currentRound\<close> in \<open>w'\<close>. They are absent exactly when \<open>currentRound\<close> is still
  \<open>null\<close> in \<open>w'\<close>, which happens only during startup, before the first round has
  been pulled and before anything has been broadcast; \<open>previousRounds\<close> and
  \<open>liveScore\<close> are sent all the same. If the log table does not exist in \<open>w\<close>,
  nothing is sent; this happens exactly when the database was fresh and the query
  ran before the startup callback.
\<close>

theorem initData_snapshot:
  fixes rnd clk st n k
  defines "w \<equiv> (step ^^ n) (initial rnd clk st)"
  defines "w' \<equiv> (step ^^ k) w"
  assumes "wf_store st"
  shows "(tables_created (db w) \<longrightarrow>
            onConnection w w'
            = Some \<lparr>init_roundId = map_option roundId (currentRound w'),
                    init_crashPoint = map_option crashPoint (currentRound w'),
                    init_previousRounds = take 20 (rev (luckyjet_round_log (db w))),
                    init_liveScore = liveScore w'\<rparr>)
         \<and> (\<not> tables_created (db w) \<longrightarrow> onConnection w w' = None)
         \<and> (tables_created (db w) \<longleftrightarrow> tables_created st \<or> 0 < n)
         \<and> length (take 20 (rev (luckyjet_round_log (db w)))) \<le> 20
         \<and> sorted_wrt (>) (map log_id (take 20 (rev (luckyjet_round_log (db w)))))
         \<and> (currentRound w' = None \<longrightarrow>
              (pc w' = Idle \<or> pc w' = BacklogCheck) \<and> emitted w' = [])
         \<and> (pc w' = RoundStart \<or> pc w' = LiveProgression \<or> pc w' = Settle
              \<or> pc w' = InterRoundPause \<longrightarrow> currentRound w' \<noteq> None)"
proof -
  have inv: "loop_invariant w"
    unfolding w_def by (rule loop_invariant_reachable [OF assms(3)])
  have inv': "loop_invariant w'"
    unfolding w'_def w_def funpow_reachable by (rule loop_invariant_reachable [OF assms(3)])
  have wf: "wf_store (db w)"
    using inv by (simp add: loop_invariant_def)
  note h = getLast20Rounds_wf [OF wf]
  have sent: "onConnection w w'
        = Some \<lparr>init_roundId = map_option roundId (currentRound w'),
                init_crashPoint = map_option crashPoint (currentRound w'),
                init_previousRounds = take 20 (rev (luckyjet_round_log (db w))),
                init_liveScore = liveScore w'\<rparr>"
    if "tables_created (db w)"
    using that by (simp add: onConnection_def initData_def h(1))
  have unsent: "onConnection w w' = None" if "\<not> tables_created (db w)"
    using that by (simp add: onConnection_def)
  have tc: "tables_created (db w) \<longleftrightarrow> tables_created st \<or> 0 < n"
    unfolding w_def by (rule tables_created_reachable [OF assms(3)])
  have srt: "sorted_wrt (>) (map log_id (take 20 (rev (luckyjet_round_log (db w)))))"
    using h(2) by (simp only: h(1))
  note c = currentRound_by_phase [OF inv']
  show ?thesis
    using sent unsent tc srt c by simp
qed

lemma wf_store_fresh: "wf_store fresh_database"
  by (simp add: wf_store_def fresh_database_def empty_store_def)

lemma funpow_1: "((f :: 'a \<Rightarrow> 'a) ^^ 1) x = f x"
  by simp

theorem initData_snapshot_witness:
  "map_option init_roundId
      (onConnection ((step ^^ 3) (initial (mocked []) (wall_clock 1000) empty_store))
         ((step ^^ 1) ((step ^^ 3) (initial (mocked []) (wall_clock 1000) empty_store))))
    = Some (Some 1000)
   \<and> map_option init_liveScore
      (onConnection ((step ^^ 3) (initial (mocked []) (wall_clock 1000) empty_store))
         ((step ^^ 1) ((step ^^ 3) (initial (mocked []) (wall_clock 1000) empty_store))))
    = Some (101 / 100)
   \<and> onConnection ((step ^^ 0) (initial (mocked []) (wall_clock 1000) fresh_database))
        ((step ^^ 0) ((step ^^ 0) (initial (mocked []) (wall_clock 1000) fresh_database)))
      = None"
proof -
  let ?e = "initial (mocked []) (wall_clock 1000) empty_store"
  let ?f = "initial (mocked []) (wall_clock 1000) fresh_database"
  have c: "crashPoint (prefilled_row 0 ?e 0) \<le> 101 / 100"
    by (simp add: example_first_row)
  note f = first_round_crash [OF c]
  have cur: "currentRound ((step ^^ 1) ((step ^^ 3) ?e))
             = Some \<lparr>row_id = 1, roundId = 1000, crashPoint = 1, isRunning = False\<rparr>"
    unfolding funpow_3 funpow_1 by (simp add: f(2) example_first_row)
  have ls: "liveScore ((step ^^ 1) ((step ^^ 3) ?e)) = 101 / 100"
    unfolding funpow_3 funpow_1 by (rule f(4))
  have fresh: "\<not> tables_created fresh_database"
    by (simp add: fresh_database_def empty_store_def)
  from initData_snapshot [where n = 3 and rnd = "mocked []" and clk = "wall_clock 1000"
      and k = 1, OF wf_store_empty]
  have "onConnection ((step ^^ 3) ?e) ((step ^^ 1) ((step ^^ 3) ?e))
        = Some \<lparr>init_roundId = map_option roundId (currentRound ((step ^^ 1) ((step ^^ 3) ?e))),
                init_crashPoint = map_option crashPoint (currentRound ((step ^^ 1) ((step ^^ 3) ?e))),
                init_previousRounds = take 20 (rev (luckyjet_round_log (db ((step ^^ 3) ?e)))),
                init_liveScore = liveScore ((step ^^ 1) ((step ^^ 3) ?e))\<rparr>"
    by simp
  then have a: "map_option init_roundId
        (onConnection ((step ^^ 3) ?e) ((step ^^ 1) ((step ^^ 3) ?e))) = Some (Some 1000)"
    and b: "map_option init_liveScore
        (onConnection ((step ^^ 3) ?e) ((step ^^ 1) ((step ^^ 3) ?e))) = Some (101 / 100)"
    by (simp_all only: cur ls option.map init_data.simps round_row.simps)
  from initData_snapshot [where n = 0 and rnd = "mocked []" and clk = "wall_clock 1000"
      and k = 0 and st = fresh_database, OF wf_store_fresh] fresh
  have n: "onConnection ((step ^^ 0) ?f) ((step ^^ 0) ((step ^^ 0) ?f)) = None"
    by simp
  from a b n show ?thesis
    by (intro conjI)
qed

text \<open>
  Three connections that the sentence as written does not cover. On a fresh
  database a client connects before the startup callback has run: no round is
  active, the query is rejected and nothing is sent, neither \<open>previousRounds\<close> nor
  \<open>liveScore\<close>. On existing tables a client connects while \<open>currentRound\<close> is still
  \<open>null\<close> and the first round is pulled and started before the query returns: the
  snapshot carries that round's \<open>roundId\<close>. A client connects when the first round
  has just started, the score being \<open>1\<close>, and the timer fires once before the query
  returns: the snapshot carries the score \<open>1.01\<close>.
\<close>

theorem initData_startup_counterexample:
  "pc (initial (mocked []) (wall_clock 1000) fresh_database) = Idle
   \<and> currentRound (initial (mocked []) (wall_clock 1000) fresh_database) = None
   \<and> onConnection (initial (mocked []) (wall_clock 1000) fresh_database)
        (initial (mocked []) (wall_clock 1000) fresh_database) = None
   \<and> currentRound ((step ^^ 1) (initial (mocked []) (wall_clock 1000) empty_store)) = None
   \<and> map_option init_roundId
        (onConnection ((step ^^ 1) (initial (mocked []) (wall_clock 1000) empty_store))
           ((step ^^ 3) (initial (mocked []) (wall_clock 1000) empty_store)))
      = Some (Some 1000)
   \<and> liveScore ((step ^^ 3) (initial (mocked []) (wall_clock 1000) empty_store)) = 1
   \<and> map_option init_liveScore
        (onConnection ((step ^^ 3) (initial (mocked []) (wall_clock 1000) empty_store))
           ((step ^^ 4) (initial (mocked []) (wall_clock 1000) empty_store)))
      = Some (101 / 100)"
proof -
  let ?e = "initial (mocked []) (wall_clock 1000) empty_store"
  let ?f = "initial (mocked []) (wall_clock 1000) fresh_database"
  have c: "crashPoint (prefilled_row 0 ?e 0) \<le> 101 / 100"
    by (simp add: example_first_row)
  note s = first_round_start [of "mocked []" "wall_clock 1000"]
  note f = first_round_crash [OF c]
  have f0: "pc ?f = Idle" "currentRound ?f = None" "onConnection ?f ?f = None"
    by (simp_all add: initial_def onConnection_def fresh_database_def empty_store_def)
  have "pc ?e = Idle" "currentRound ?e = None"
    by (simp_all add: initial_def)
  then have cur1: "currentRound ((step ^^ 1) ?e) = None"
    by (simp add: step_def [of ?e] boot_fields(2))
  have t1: "tables_created (db ((step ^^ 1) ?e))"
    by (simp only: tables_created_reachable [OF wf_store_empty]) simp
  have t3: "tables_created (db ((step ^^ 3) ?e))"
    by (simp only: tables_created_reachable [OF wf_store_empty]) simp
  have cur3: "currentRound ((step ^^ 3) ?e)
              = Some \<lparr>row_id = 1, roundId = 1000, crashPoint = 1, isRunning = False\<rparr>"
    unfolding funpow_3 by (simp add: s(4) example_first_row)
  have ls3: "liveScore ((step ^^ 3) ?e) = 1"
    unfolding funpow_3 by (rule s(5))
  have ls4: "liveScore ((step ^^ 4) ?e) = 101 / 100"
    unfolding funpow_4 by (rule f(4))
  have a: "map_option init_roundId (onConnection ((step ^^ 1) ?e) ((step ^^ 3) ?e))
           = Some (Some 1000)"
    using t1 by (simp add: onConnection_def initData_def cur3)
  have b: "map_option init_liveScore (onConnection ((step ^^ 3) ?e) ((step ^^ 4) ?e))
           = Some (101 / 100)"
    using t3 by (simp add: onConnection_def initData_def ls4)
  from f0 cur1 a ls3 b show ?thesis
    by (intro conjI)
qed
subsection \<open>Live progression and the crash\<close>

lemma step_in_progress:
  assumes "in_progress r w"
  shows "step w = tick w"
    and "liveScore (step w) = toFixed2 (advance (liveScore w))"
    and "isCrashed (step w) = (crashPoint r \<le> liveScore (step w))"
    and "emitted (step w)
         = emitted w @ Emit_liveScore (liveScore (step w))
             # (if isCrashed (step w) then [Emit_crashed (crashPoint r)] else [])"
    and "\<not> isCrashed (step w) \<Longrightarrow> in_progress r (step w)"
    and "isCrashed (step w) \<Longrightarrow>
         pc (step w) = Settle \<and> \<not> interval_set (step w) \<and> currentRound (step w) = Some r"
proof -
  from assms have cur: "currentRound w = Some r" and nc: "\<not> isCrashed w"
    and at: "pc w = LiveProgression" and i: "interval_set w"
    by (simp_all add: in_progress_def)
  show s: "step w = tick w"
    using at i by (simp add: step_def)
  note t = tick_fields [OF cur nc]
  show "liveScore (step w) = toFixed2 (advance (liveScore w))"
    by (simp only: s t)
  show c: "isCrashed (step w) = (crashPoint r \<le> liveScore (step w))"
    by (simp only: s t)
  show "emitted (step w)
        = emitted w @ Emit_liveScore (liveScore (step w))
            # (if isCrashed (step w) then [Emit_crashed (crashPoint r)] else [])"
    unfolding c by (simp only: s t)
  show "in_progress r (step w)" if "\<not> isCrashed (step w)"
    using that at i unfolding in_progress_def c by (simp add: s t)
  show "pc (step w) = Settle \<and> \<not> interval_set (step w) \<and> currentRound (step w) = Some r"
    if "isCrashed (step w)"
    using that unfolding c by (simp add: s t)
qed

text \<open>Every tick raises the score by at least half a hundredth, so the round in
  progress crashes after finitely many ticks.\<close>

lemma crash_reached:
  assumes "in_progress r w"
  shows "\<exists>n. (\<forall>k\<le>n. in_progress r ((step ^^ k) w)) \<and> isCrashed ((step ^^ Suc n) w)"
  using assms
proof (induction "nat \<lceil>(crashPoint r - liveScore w) * 200\<rceil>" arbitrary: w rule: less_induct)
  case less
  note s = step_in_progress [OF less.prems]
  show ?case
  proof (cases "isCrashed (step w)")
    case True
    have "(\<forall>k\<le>0. in_progress r ((step ^^ k) w)) \<and> isCrashed ((step ^^ Suc 0) w)"
      using less.prems True by simp
    then show ?thesis by blast
  next
    case False
    then have below: "liveScore (step w) < crashPoint r"
      using s(3) by simp
    have up: "liveScore w + 1 / 200 \<le> liveScore (step w)"
      unfolding s(2) by (rule tick_score_grows)
    define d where "d = (crashPoint r - liveScore w) * 200"
    have "(crashPoint r - liveScore (step w)) * 200 \<le> d - 1"
      using up by (simp add: d_def algebra_simps)
    then have "\<lceil>(crashPoint r - liveScore (step w)) * 200\<rceil> \<le> \<lceil>d - 1\<rceil>"
      by (rule ceiling_mono)
    moreover have "1 < d"
      using up below by (simp add: d_def algebra_simps)
    then have "1 \<le> \<lceil>d\<rceil>"
      by (simp add: le_ceiling_iff)
    ultimately have "nat \<lceil>(crashPoint r - liveScore (step w)) * 200\<rceil> < nat \<lceil>d\<rceil>"
      by simp
    from less.hyps [OF this [unfolded d_def] s(5) [OF False]]
    obtain n where n: "\<forall>k\<le>n. in_progress r ((step ^^ k) (step w))"
      "isCrashed ((step ^^ Suc n) (step w))"
      by blast
    have "in_progress r ((step ^^ k) w)" if "k \<le> Suc n" for k
    proof (cases k)
      case 0
      then show ?thesis using less.prems by simp
    next
      case (Suc j)
      then have "j \<le> n" using that by simp
      with n(1) show ?thesis by (simp add: Suc funpow_swap1)
    qed
    moreover have "isCrashed ((step ^^ Suc (Suc n)) w)"
      using n(2) by (simp add: funpow_swap1)
    ultimately show ?thesis by blast
  qed
qed

lemma live_scores_below:
  assumes "\<forall>k\<le>n. in_progress r ((step ^^ k) w)" and "0 < k" and "k \<le> n"
  shows "liveScore ((step ^^ k) w) < crashPoint r"
proof -
  obtain j where j: "k = Suc j" using assms(2) by (cases k) auto
  have "j \<le> n" "Suc j \<le> n"
    using assms(3) j by simp_all
  then have a: "in_progress r ((step ^^ j) w)" and b: "in_progress r ((step ^^ Suc j) w)"
    using assms(1) by blast+
  have "\<not> isCrashed (step ((step ^^ j) w))"
    using b by (simp add: in_progress_def)
  then show ?thesis
    using step_in_progress(3) [OF a] by (simp add: j)
qed

lemma live_trace:
  assumes "\<forall>k\<le>n. in_progress r ((step ^^ k) w)"
  shows "emitted ((step ^^ Suc n) w)
         = emitted w @ map (\<lambda>k. Emit_liveScore (liveScore ((step ^^ k) w))) [1..<Suc (Suc n)]
           @ (if isCrashed ((step ^^ Suc n) w) then [Emit_crashed (crashPoint r)] else [])"
  using assms
proof (induction n)
  case 0
  then have "in_progress r w" by simp
  from step_in_progress(4) [OF this] show ?case by simp
next
  case (Suc n)
  have here: "in_progress r ((step ^^ Suc n) w)"
    using Suc.prems by blast
  then have nc: "\<not> isCrashed ((step ^^ Suc n) w)"
    by (simp add: in_progress_def)
  have "\<forall>k\<le>n. in_progress r ((step ^^ k) w)"
    using Suc.prems by simp
  from Suc.IH [OF this] nc
  have before: "emitted ((step ^^ Suc n) w)
      = emitted w @ map (\<lambda>k. Emit_liveScore (liveScore ((step ^^ k) w))) [1..<Suc (Suc n)]"
    by simp
  have "emitted ((step ^^ Suc (Suc n)) w)
      = emitted ((step ^^ Suc n) w) @ Emit_liveScore (liveScore ((step ^^ Suc (Suc n)) w))
          # (if isCrashed ((step ^^ Suc (Suc n)) w) then [Emit_crashed (crashPoint r)] else [])"
    using step_in_progress(4) [OF here] by simp
  then show ?case
    unfolding before by simp
qed

lemma quiet_after_crash:
  assumes "pc w = Settle" and "currentRound w = Some r"
  shows "emitted (step w) = emitted w"
    and "emitted (step (step w)) = emitted w"
    and "emitted (step (step (step w))) = emitted w"
    and "pc (step (step w)) = BacklogCheck"
proof -
  have s1: "step w = settle w"
    using assms(1) by (simp add: step_def)
  note f = settle_fields [OF assms(2)]
  show e1: "emitted (step w) = emitted w"
    by (simp only: s1 f)
  have pc1: "pc (step w) = InterRoundPause"
    by (simp only: s1 f)
  have s2: "step (step w) = pause (step w)"
    using pc1 by (simp add: step_def [of "step w"])
  show e2: "emitted (step (step w)) = emitted w"
    using e1 by (simp add: s2 pause_def)
  show pc2: "pc (step (step w)) = BacklogCheck"
    by (simp add: s2 pause_def)
  have s3: "step (step (step w)) = backlogCheck (step (step w))"
    using pc2 by (simp add: step_def [of "step (step w)"])
  have "emitted (backlogCheck v) = emitted v" for v
    by (cases "select_earliest (db v)")
      (simp_all add: backlogCheck_empty backlogCheck_round prefillRounds_frame)
  then show "emitted (step (step (step w))) = emitted w"
    using e2 by (simp add: s3)
qed

lemma crashed_events_scores:
  "crashed_events (map (\<lambda>k. Emit_liveScore (f k)) ks) = []"
  by (induction ks) (simp_all add: crashed_events_def)

lemma crashed_events_round:
  "crashed_events (Emit_roundStart rid cp hist # map (\<lambda>k. Emit_liveScore (f k)) ks
     @ [Emit_crashed cp'])
   = [Emit_crashed cp']"
  using crashed_events_scores [of f ks] by (simp add: crashed_events_def)

lemma crashed_count_step:
  assumes "loop_invariant w"
    and "length (crashed_events (emitted w)) + (if pc w = LiveProgression then 1 else 0)
         = length (roundStart_events (emitted w))"
  shows "length (crashed_events (emitted (step w)))
           + (if pc (step w) = LiveProgression then 1 else 0)
         = length (roundStart_events (emitted (step w)))"
proof (cases "pc w")
  case Idle
  with assms(2) show ?thesis
    by (simp add: step_def boot_fields)
next
  case BacklogCheck
  with assms(2) show ?thesis
    by (cases "select_earliest (db w)")
      (simp_all add: step_def backlogCheck_empty backlogCheck_round prefillRounds_frame)
next
  case RoundStart
  with assms(1) obtain r where cur: "currentRound w = Some r"
    by (cases "currentRound w") (simp_all add: loop_invariant_def)
  from RoundStart assms(2) show ?thesis
    by (simp add: step_def roundStart_fields [OF cur] crashed_events_def roundStart_events_def)
next
  case LiveProgression
  with assms(1) obtain r where cur: "currentRound w = Some r" and nc: "\<not> isCrashed w"
    and i: "interval_set w"
    by (cases "currentRound w") (simp_all add: loop_invariant_def)
  from LiveProgression assms(2) i show ?thesis
    by (simp add: step_def tick_fields [OF cur nc] crashed_events_def roundStart_events_def)
next
  case Settle
  with assms(1) obtain r where cur: "currentRound w = Some r"
    by (cases "currentRound w") (simp_all add: loop_invariant_def)
  from Settle assms(2) show ?thesis
    by (simp add: step_def settle_fields [OF cur])
next
  case InterRoundPause
  with assms(2) show ?thesis
    by (simp add: step_def pause_def)
next
  case Faulted
  with assms(2) show ?thesis
    by (simp add: step_def)
qed

lemma crashed_count_funpow:
  assumes "loop_invariant w"
    and "length (crashed_events (emitted w)) + (if pc w = LiveProgression then 1 else 0)
         = length (roundStart_events (emitted w))"
  shows "length (crashed_events (emitted ((step ^^ k) w)))
           + (if pc ((step ^^ k) w) = LiveProgression then 1 else 0)
         = length (roundStart_events (emitted ((step ^^ k) w)))"
proof (induction k)
  case 0
  from assms(2) show ?case
    by simp
next
  case (Suc k)
  have "loop_invariant ((step ^^ k) w)"
    using assms(1) by (rule loop_invariant_funpow)
  from crashed_count_step [OF this Suc.IH] show ?case
    by simp
qed

text \<open>In every state the server reaches, each \<open>roundStart\<close> broadcast so far is
  matched by one \<open>crashed\<close> broadcast, except that of the round in progress.\<close>

lemma crashed_count_reachable:
  assumes "wf_store st"
  shows "length (crashed_events (emitted ((step ^^ n) (initial rnd clk st))))
           + (if pc ((step ^^ n) (initial rnd clk st)) = LiveProgression then 1 else 0)
         = length (roundStart_events (emitted ((step ^^ n) (initial rnd clk st))))"
  by (rule crashed_count_funpow [OF loop_invariant_initial [OF assms]])
    (simp add: initial_def crashed_events_def roundStart_events_def)

text \<open>
  C4. Take any state the server reaches from well-formed tables in which a round has
  been pulled and is about to start. Starting it broadcasts \<open>roundStart\<close> and nothing
  else. For some \<open>n\<close> the first \<open>n\<close> ticks leave the round in progress with the score
  below the crash point, and tick \<open>n + 1\<close> is the first to bring the score to the
  crash point or above: it sets the latch, clears the timer and lets the loop
  continue at \<open>Settle\<close>. What the round has broadcast by then is \<open>roundStart\<close>, the
  score of each tick, and one \<open>crashed\<close> event with the round's crash point, which
  is the only \<open>crashed\<close> event among them. A timer callback that still ran afterwards
  would change nothing, and nothing more is broadcast until the next round has been
  pulled. Before the round starts and again after its crash, the server has
  broadcast as many \<open>crashed\<close> events as \<open>roundStart\<close> events: one for each round
  it has started.
\<close>

theorem crash_exactly_once:
  fixes rnd clk st m
  defines "w0 \<equiv> (step ^^ m) (initial rnd clk st)"
  defines "w \<equiv> step w0"
  assumes "wf_store st" and "pc w0 = RoundStart"
  shows "\<exists>r n. currentRound w0 = Some r
           \<and> emitted w
               = emitted w0 @ [Emit_roundStart (roundId r) (crashPoint r) (getLast20Rounds (db w))]
           \<and> liveScore w = 1
           \<and> (\<forall>k\<le>n. in_progress r ((step ^^ k) w))
           \<and> (\<forall>k. 0 < k \<and> k \<le> n \<longrightarrow> liveScore ((step ^^ k) w) < crashPoint r)
           \<and> crashPoint r \<le> liveScore ((step ^^ Suc n) w)
           \<and> isCrashed ((step ^^ Suc n) w)
           \<and> \<not> interval_set ((step ^^ Suc n) w)
           \<and> pc ((step ^^ Suc n) w) = Settle
           \<and> emitted ((step ^^ Suc n) w)
               = emitted w0
                 @ Emit_roundStart (roundId r) (crashPoint r) (getLast20Rounds (db w))
                 # map (\<lambda>k. Emit_liveScore (liveScore ((step ^^ k) w))) [1..<Suc (Suc n)]
                 @ [Emit_crashed (crashPoint r)]
           \<and> crashed_events (drop (length (emitted w0)) (emitted ((step ^^ Suc n) w)))
               = [Emit_crashed (crashPoint r)]
           \<and> tick ((step ^^ Suc n) w) = (step ^^ Suc n) w
           \<and> emitted (step ((step ^^ Suc n) w)) = emitted ((step ^^ Suc n) w)
           \<and> emitted (step (step ((step ^^ Suc n) w))) = emitted ((step ^^ Suc n) w)
           \<and> emitted (step (step (step ((step ^^ Suc n) w)))) = emitted ((step ^^ Suc n) w)
           \<and> pc (step (step (step ((step ^^ Suc n) w)))) = RoundStart
           \<and> length (crashed_events (emitted w0)) = length (roundStart_events (emitted w0))
           \<and> length (crashed_events (emitted ((step ^^ Suc n) w)))
               = length (roundStart_events (emitted ((step ^^ Suc n) w)))"
proof -
  have inv0: "loop_invariant w0"
    unfolding w0_def by (rule loop_invariant_reachable [OF assms(3)])
  from inv0 assms(4) obtain r where cur0: "currentRound w0 = Some r"
    by (cases "currentRound w0") (simp_all add: loop_invariant_def)
  have one0: "liveScore w0 = 1"
    using inv0 assms(4) by (simp add: loop_invariant_def)
  have s0: "w = roundStart w0"
    using assms(4) by (simp add: w_def step_def)
  note f = roundStart_fields [OF cur0]
  have first: "emitted w
      = emitted w0 @ [Emit_roundStart (roundId r) (crashPoint r) (getLast20Rounds (db w))]"
    unfolding s0 by (simp only: f)
  have one: "liveScore w = 1"
    unfolding s0 using one0 by (simp only: f)
  have inv: "loop_invariant w"
    unfolding w_def using inv0 by (rule loop_invariant_step)
  have at: "pc w = LiveProgression"
    unfolding s0 by (simp only: f)
  from in_progress_reachable [OF inv at] obtain r' where "in_progress r' w"
    by blast
  moreover have "currentRound w = Some r"
    unfolding s0 by (simp only: f)
  ultimately have start: "in_progress r w"
    by (simp add: in_progress_def)
  from crash_reached [OF start] obtain n
    where live: "\<forall>k\<le>n. in_progress r ((step ^^ k) w)"
      and crashed: "isCrashed ((step ^^ Suc n) w)"
    by blast
  let ?c = "(step ^^ Suc n) w"
  have last: "in_progress r ((step ^^ n) w)"
    using live by simp
  have c1: "isCrashed (step ((step ^^ n) w))"
    using crashed by simp
  have over: "crashPoint r \<le> liveScore ?c"
    using step_in_progress(3) [OF last] c1 by simp
  have after: "pc ?c = Settle" "\<not> interval_set ?c" "currentRound ?c = Some r"
    using step_in_progress(6) [OF last c1] by simp_all
  have below: "\<forall>k. 0 < k \<and> k \<le> n \<longrightarrow> liveScore ((step ^^ k) w) < crashPoint r"
    using live_scores_below [OF live] by blast
  have "emitted ?c
      = emitted w @ map (\<lambda>k. Emit_liveScore (liveScore ((step ^^ k) w))) [1..<Suc (Suc n)]
        @ [Emit_crashed (crashPoint r)]"
    using live_trace [OF live] crashed by simp
  then have trace: "emitted ?c
      = emitted w0
        @ Emit_roundStart (roundId r) (crashPoint r) (getLast20Rounds (db w))
        # map (\<lambda>k. Emit_liveScore (liveScore ((step ^^ k) w))) [1..<Suc (Suc n)]
        @ [Emit_crashed (crashPoint r)]"
    by (simp only: first append_assoc append_Cons append_Nil)
  have once: "crashed_events (drop (length (emitted w0)) (emitted ?c))
      = [Emit_crashed (crashPoint r)]"
    unfolding trace by (simp only: append_eq_conv_conj drop_append diff_self_eq_0 drop_0
        drop_all order_refl append_Nil crashed_events_round)
  have late: "tick ?c = ?c"
    using crashed by (rule tick_crashed)
  note quiet = quiet_after_crash [OF after(1) after(3)]
  have "loop_invariant (step (step ?c))"
    by (intro loop_invariant_step loop_invariant_funpow inv)
  from pull_succeeds [OF this quiet(4)] have again: "pc (step (step (step ?c))) = RoundStart" .
  have b0: "length (crashed_events (emitted w0)) + (if pc w0 = LiveProgression then 1 else 0)
      = length (roundStart_events (emitted w0))"
    unfolding w0_def by (rule crashed_count_reachable [OF assms(3)])
  then have cnt0: "length (crashed_events (emitted w0)) = length (roundStart_events (emitted w0))"
    using assms(4) by simp
  have "length (crashed_events (emitted w)) + (if pc w = LiveProgression then 1 else 0)
      = length (roundStart_events (emitted w))"
    unfolding w_def using inv0 b0 by (rule crashed_count_step)
  from crashed_count_funpow [OF inv this, of "Suc n"] after(1)
  have cnt: "length (crashed_events (emitted ?c)) = length (roundStart_events (emitted ?c))"
    by simp
  from cur0 first one live below over crashed after(1,2) trace once late quiet(1-3) again
    cnt0 cnt
  show ?thesis
    by blast
qed

theorem crash_exactly_once_witness:
  "pc ((step ^^ 2) (initial (mocked []) (wall_clock 1000) empty_store)) = RoundStart
   \<and> (\<exists>(r :: round_row) n.
        crashed_events
          (drop (length (emitted ((step ^^ 2) (initial (mocked []) (wall_clock 1000) empty_store))))
             (emitted ((step ^^ Suc n)
                (step ((step ^^ 2) (initial (mocked []) (wall_clock 1000) empty_store))))))
        = [Emit_crashed (crashPoint r)]
        \<and> pc ((step ^^ Suc n)
              (step ((step ^^ 2) (initial (mocked []) (wall_clock 1000) empty_store)))) = Settle)"
proof -
  let ?w0 = "initial (mocked []) (wall_clock 1000) empty_store"
  have p2: "pc ((step ^^ 2) ?w0) = RoundStart"
    using first_round_start(2) [of "mocked []" "wall_clock 1000"]
    by (simp add: numeral_2_eq_2)
  from crash_exactly_once [OF wf_store_empty p2] obtain r :: round_row and n
    where "crashed_events
          (drop (length (emitted ((step ^^ 2) ?w0)))
             (emitted ((step ^^ Suc n) (step ((step ^^ 2) ?w0)))))
        = [Emit_crashed (crashPoint r)]"
      and "pc ((step ^^ Suc n) (step ((step ^^ 2) ?w0))) = Settle"
    by (elim exE conjE) (rule that, assumption+)
  with p2 show ?thesis
    by (intro conjI exI)
qed

subsection \<open>The tiered step\<close>

lemma advance_on_grid:
  assumes "toFixed2 s = s" and "1 \<le> s"
  shows "toFixed2 (advance s) = advance s"
proof (cases "10 ^ 21 \<le> \<bar>advance s\<bar>")
  case True
  then show ?thesis by (simp add: toFixed2_def)
next
  case False
  have "s \<le> advance s"
    using advance_grows [of s] by linarith
  then have small: "\<not> 10 ^ 21 \<le> \<bar>s\<bar>"
    using False assms(2) by linarith
  define k where "k = \<lfloor>s * 100 + 1 / 2\<rfloor>"
  have s: "s = of_int k / 100"
    using assms small by (simp add: toFixed2_def k_def split: if_splits)
  have "advance s \<in> {of_int (k + 1) / 100, of_int (k + 2) / 100, of_int (k + 5) / 100,
      of_int (k + 10) / 100, of_int (k + 15) / 100, of_int (k + 20) / 100}"
    unfolding advance_def s by (simp add: add_divide_distrib)
  then show ?thesis
    using toFixed2_grid by (elim insertE emptyE) (simp_all only:)
qed

text \<open>
  C5. In every state the server reaches from well-formed tables with a round in live
  progression, the next tick sets \<open>liveScore\<close> to the old value plus the step of its
  tier, rounded to two decimals (the sum already is a two-decimal number), broadcasts
  it as a \<open>liveScore\<close> event and never lowers it. Pulling a round sets \<open>liveScore\<close> to
  \<open>1\<close>, and it is still \<open>1\<close> when the round's first tick is due.
\<close>

theorem liveScore_progression:
  fixes rnd clk st n
  defines "w \<equiv> (step ^^ n) (initial rnd clk st)"
  defines "s \<equiv> liveScore w"
  assumes "wf_store st"
  shows "(pc w = LiveProgression \<longrightarrow>
            liveScore (step w) = toFixed2 (advance s)
            \<and> (s < 3 / 2 \<longrightarrow> liveScore (step w) = s + 1 / 100)
            \<and> (3 / 2 \<le> s \<and> s < 3 \<longrightarrow> liveScore (step w) = s + 2 / 100)
            \<and> (3 \<le> s \<and> s < 5 \<longrightarrow> liveScore (step w) = s + 5 / 100)
            \<and> (5 \<le> s \<and> s < 10 \<longrightarrow> liveScore (step w) = s + 10 / 100)
            \<and> (10 \<le> s \<and> s < 50 \<longrightarrow> liveScore (step w) = s + 15 / 100)
            \<and> (50 \<le> s \<longrightarrow> liveScore (step w) = s + 20 / 100)
            \<and> toFixed2 (liveScore (step w)) = liveScore (step w)
            \<and> (\<exists>rest. emitted (step w) = emitted w @ Emit_liveScore (liveScore (step w)) # rest)
            \<and> s \<le> liveScore (step w))
         \<and> (pc w = BacklogCheck \<longrightarrow> pc (step w) = RoundStart \<and> liveScore (step w) = 1)
         \<and> (pc w = RoundStart \<longrightarrow> pc (step w) = LiveProgression \<and> liveScore (step w) = 1)"
proof -
  have inv: "loop_invariant w"
    unfolding w_def by (rule loop_invariant_reachable [OF assms(3)])
  have inv': "loop_invariant (step w)"
    using inv by (rule loop_invariant_step)
  have grid: "toFixed2 s = s" "1 \<le> s"
    using inv by (simp_all add: loop_invariant_def s_def)
  have live: "liveScore (step w) = toFixed2 (advance s)
      \<and> (s < 3 / 2 \<longrightarrow> liveScore (step w) = s + 1 / 100)
      \<and> (3 / 2 \<le> s \<and> s < 3 \<longrightarrow> liveScore (step w) = s + 2 / 100)
      \<and> (3 \<le> s \<and> s < 5 \<longrightarrow> liveScore (step w) = s + 5 / 100)
      \<and> (5 \<le> s \<and> s < 10 \<longrightarrow> liveScore (step w) = s + 10 / 100)
      \<and> (10 \<le> s \<and> s < 50 \<longrightarrow> liveScore (step w) = s + 15 / 100)
      \<and> (50 \<le> s \<longrightarrow> liveScore (step w) = s + 20 / 100)
      \<and> toFixed2 (liveScore (step w)) = liveScore (step w)
      \<and> (\<exists>rest. emitted (step w) = emitted w @ Emit_liveScore (liveScore (step w)) # rest)
      \<and> s \<le> liveScore (step w)"
    if at: "pc w = LiveProgression"
  proof -
    from in_progress_reachable [OF inv at] obtain r where "in_progress r w"
      by blast
    note t = step_in_progress [OF this]
    have new: "liveScore (step w) = advance s"
      using t(2) advance_on_grid [OF grid] by (simp add: s_def)
    have tiers: "(s < 3 / 2 \<longrightarrow> advance s = s + 1 / 100)
        \<and> (3 / 2 \<le> s \<and> s < 3 \<longrightarrow> advance s = s + 2 / 100)
        \<and> (3 \<le> s \<and> s < 5 \<longrightarrow> advance s = s + 5 / 100)
        \<and> (5 \<le> s \<and> s < 10 \<longrightarrow> advance s = s + 10 / 100)
        \<and> (10 \<le> s \<and> s < 50 \<longrightarrow> advance s = s + 15 / 100)
        \<and> (50 \<le> s \<longrightarrow> advance s = s + 20 / 100)"
      by (simp add: advance_def)
    have up: "s \<le> liveScore (step w)"
      unfolding new using advance_grows [of s] by linarith
    have ev: "\<exists>rest. emitted (step w) = emitted w @ Emit_liveScore (liveScore (step w)) # rest"
      using t(4) by blast
    have fixed: "toFixed2 (liveScore (step w)) = liveScore (step w)"
      unfolding new by (rule advance_on_grid [OF grid])
    have first: "liveScore (step w) = toFixed2 (advance s)"
      using t(2) by (simp add: s_def)
    from first tiers fixed ev up show ?thesis
      unfolding new by blast
  qed
  have pull: "pc (step w) = RoundStart \<and> liveScore (step w) = 1" if at: "pc w = BacklogCheck"
  proof -
    have "pc (step w) = RoundStart"
      by (rule pull_succeeds [OF inv at])
    with inv' show ?thesis by (simp add: loop_invariant_def)
  qed
  have start: "pc (step w) = LiveProgression \<and> liveScore (step w) = 1" if at: "pc w = RoundStart"
  proof -
    from inv at obtain r where cur: "currentRound w = Some r"
      by (cases "currentRound w") (simp_all add: loop_invariant_def)
    have one: "liveScore w = 1"
      using inv at by (simp add: loop_invariant_def)
    have "step w = roundStart w"
      using at by (simp add: step_def)
    then show ?thesis
      using roundStart_fields(4,7) [OF cur] one by simp
  qed
  from live pull start show ?thesis
    by blast
qed

theorem liveScore_progression_witness:
  "pc ((step ^^ 3) (initial (mocked []) (wall_clock 1000) empty_store)) = LiveProgression
   \<and> liveScore ((step ^^ 3) (initial (mocked []) (wall_clock 1000) empty_store)) = 1
   \<and> liveScore (step ((step ^^ 3) (initial (mocked []) (wall_clock 1000) empty_store)))
      = 101 / 100
   \<and> pc ((step ^^ 1) (initial (mocked []) (wall_clock 1000) empty_store)) = BacklogCheck
   \<and> liveScore (step ((step ^^ 1) (initial (mocked []) (wall_clock 1000) empty_store))) = 1"
proof -
  let ?w0 = "initial (mocked []) (wall_clock 1000) empty_store"
  have p3: "pc ((step ^^ 3) ?w0) = LiveProgression"
    unfolding funpow_3 by (rule first_round_start(3))
  have s3: "liveScore ((step ^^ 3) ?w0) = 1"
    unfolding funpow_3 by (rule first_round_start(5))
  have p1: "pc ((step ^^ 1) ?w0) = BacklogCheck"
    using first_round_start(1) [of "mocked []" "wall_clock 1000"] by simp
  from liveScore_progression [where n = 3 and rnd = "mocked []" and clk = "wall_clock 1000",
      OF wf_store_empty] p3 s3
  have a: "liveScore (step ((step ^^ 3) ?w0)) = 101 / 100"
    by simp
  from liveScore_progression [where n = 1 and rnd = "mocked []" and clk = "wall_clock 1000",
      OF wf_store_empty] p1
  have b: "liveScore (step ((step ^^ 1) ?w0)) = 1"
    by blast
  from p3 s3 a p1 b show ?thesis
    by blast
qed

subsection \<open>The steady state\<close>

text \<open>
  From the first \<open>BacklogCheck\<close> on, the backlog holds exactly 30 rounds whenever the
  loop stands between two transitions, so the pull at the top of the loop always finds
  a round and the refill on an empty backlog is never needed after a start on fresh
  tables.
\<close>

theorem backlog_steady_state:
  fixes rnd clk n
  defines "w \<equiv> (step ^^ n) (initial rnd clk empty_store)"
  shows "(pc w \<noteq> Idle \<longrightarrow> count_rounds (db w) = 30)
         \<and> (pc w = BacklogCheck \<longrightarrow> pc (step w) = RoundStart)"
proof -
  have inv: "fresh_invariant w"
    unfolding w_def by (rule fresh_invariant_reachable)
  then have "count_rounds (db w) = 30" if "pc w \<noteq> Idle"
    using that by (cases "pc w") (simp_all add: fresh_invariant_def)
  moreover have "loop_invariant w"
    unfolding w_def by (rule loop_invariant_reachable [OF wf_store_empty])
  ultimately show ?thesis
    using pull_succeeds by blast
qed

theorem backlog_steady_state_witness:
  "pc ((step ^^ 1) (initial (mocked []) (wall_clock 1000) empty_store)) = BacklogCheck
   \<and> count_rounds (db ((step ^^ 1) (initial (mocked []) (wall_clock 1000) empty_store))) = 30
   \<and> pc (step ((step ^^ 1) (initial (mocked []) (wall_clock 1000) empty_store))) = RoundStart"
proof -
  let ?w0 = "initial (mocked []) (wall_clock 1000) empty_store"
  have p1: "pc ((step ^^ 1) ?w0) = BacklogCheck"
    using first_round_start(1) [of "mocked []" "wall_clock 1000"] by simp
  from backlog_steady_state [of 1 "mocked []" "wall_clock 1000"] p1 show ?thesis
    by simp
qed

text \<open>
  The game loop never reads a field of \<open>currentRound\<close> while it is \<open>null\<close>, the log
  never holds more than 200 entries, and both tables stay sorted by their keys.
\<close>

theorem loop_never_faults:
  fixes rnd clk n
  defines "w \<equiv> (step ^^ n) (initial rnd clk empty_store)"
  shows "pc w \<noteq> Faulted
         \<and> length (luckyjet_round_log (db w)) \<le> 200
         \<and> sorted_wrt (<) (map row_id (luckyjet_round (db w)))
         \<and> sorted_wrt (<) (map log_id (luckyjet_round_log (db w)))"
proof -
  have "fresh_invariant w"
    unfolding w_def by (rule fresh_invariant_reachable)
  then show ?thesis
    by (cases "pc w") (simp_all add: fresh_invariant_def wf_store_def empty_store_def)
qed

end
